theory Spec2Isabelle
  imports Main
begin

section \<open>JavaScript values\<close>

text \<open>
  The store of \<^verbatim>\<open>use-form-path.jsx\<close> keeps its trees as plain JavaScript data that is
  read and written through lodash's \<^verbatim>\<open>get\<close>, \<^verbatim>\<open>set\<close> and \<^verbatim>\<open>pullAt\<close>. A value is a
  primitive, a function (known by its identity only), an array or an object. An object is
  the list of its own enumerable properties in enumeration order; an array is the list of
  its elements, where \<open>Hole\<close> marks an index that was never assigned (\<^verbatim>\<open>forEach\<close>,
  \<^verbatim>\<open>reduce\<close> and \<^verbatim>\<open>Object.keys\<close> skip it, a read gives \<^verbatim>\<open>undefined\<close>).

  Numbers are integers and strings are byte strings. A built-in function, such as the
  \<^verbatim>\<open>toString\<close> that every object inherits, is a function like any other. Values are
  trees, so two places of a tree never share one mutable object, and a function has no
  properties that can be written. Behaviour that needs more than this (a named property
  written on an array or on a function, an array-like object handed to \<^verbatim>\<open>splice\<close>) is
  the error \<open>Unmodelled\<close>.
\<close>

datatype jsval =
    Undefined
  | Null
  | Bool bool
  | Num int
  | Str string
  | Fn nat
  | Arr "jsval list"
  | Obj "(string \<times> jsval) list"
  | Hole

datatype error =
    TypeError
  | Error string
  | Unmodelled

fun truthy :: "jsval \<Rightarrow> bool" where
  "truthy Undefined = False"
| "truthy Null = False"
| "truthy Hole = False"
| "truthy (Bool b) = b"
| "truthy (Num n) = (n \<noteq> 0)"
| "truthy (Str s) = (s \<noteq> [])"
| "truthy (Fn f) = True"
| "truthy (Arr xs) = True"
| "truthy (Obj kvs) = True"

text \<open>\<^verbatim>\<open>Array.isArray(v)\<close>, \<^verbatim>\<open>typeof v === 'function'\<close> and lodash's \<^verbatim>\<open>isObject\<close>.\<close>

fun isArray :: "jsval \<Rightarrow> bool" where
  "isArray (Arr xs) = True"
| "isArray v = False"

fun isFunction :: "jsval \<Rightarrow> bool" where
  "isFunction (Fn f) = True"
| "isFunction v = False"

fun isObject :: "jsval \<Rightarrow> bool" where
  "isObject (Arr xs) = True"
| "isObject (Obj kvs) = True"
| "isObject (Fn f) = True"
| "isObject v = False"

subsection \<open>Decimal numerals\<close>

definition is_digit :: "char \<Rightarrow> bool" where
  "is_digit c = (c \<in> set ''0123456789'')"

definition is_word_char :: "char \<Rightarrow> bool" where
  "is_word_char c =
     (c \<in> set ''abcdefghijklmnopqrstuvwxyzABCDEFGHIJKLMNOPQRSTUVWXYZ0123456789_'')"

definition digit_val :: "char \<Rightarrow> nat" where
  "digit_val c = length (takeWhile (\<lambda>d. d \<noteq> c) ''0123456789'')"

definition digit_char :: "nat \<Rightarrow> char" where
  "digit_char n = ''0123456789'' ! n"

text \<open>The decimal text of a natural number, as a template literal prints an index.\<close>

fun show_nat :: "nat \<Rightarrow> string" where
  "show_nat n =
     (if n < 10 then [digit_char n] else show_nat (n div 10) @ [digit_char (n mod 10)])"

declare show_nat.simps [simp del]

definition read_nat :: "string \<Rightarrow> nat" where
  "read_nat s = foldl (\<lambda>a c. 10 * a + digit_val c) 0 s"

text \<open>lodash's \<^verbatim>\<open>reIsUint = /^(?:0|[1-9]\d*)$/\<close>.\<close>

definition reIsUint_test :: "string \<Rightarrow> bool" where
  "reIsUint_test s =
     (case s of
        [] \<Rightarrow> False
      | c # cs \<Rightarrow> if c = CHR ''0'' then cs = [] else is_digit c \<and> list_all is_digit cs)"

text \<open>lodash's \<^verbatim>\<open>isIndex(value)\<close> for a string, with the default bound
  \<^verbatim>\<open>MAX_SAFE_INTEGER\<close>.\<close>

definition isIndex :: "string \<Rightarrow> bool" where
  "isIndex s = (reIsUint_test s \<and> read_nat s < 9007199254740991)"

text \<open>An array index of the language: a canonical numeral below \<open>2^32 - 1\<close>.\<close>

definition array_index :: "string \<Rightarrow> nat option" where
  "array_index s =
     (if reIsUint_test s \<and> read_nat s < 4294967295 then Some (read_nat s) else None)"

subsection \<open>Properties\<close>

text \<open>
  The properties with string keys of the built-in prototypes (ECMAScript 2024 with its
  Annex B). An object inherits from \<^verbatim>\<open>Object.prototype\<close>; an array, a string, a number, a
  boolean and a function inherit from the prototype of their kind and then from
  \<^verbatim>\<open>Object.prototype\<close>.
\<close>

definition object_prototype :: "string list" where
  "object_prototype =
     [''constructor'', ''__defineGetter__'', ''__defineSetter__'', ''hasOwnProperty'',
      ''__lookupGetter__'', ''__lookupSetter__'', ''isPrototypeOf'',
      ''propertyIsEnumerable'', ''toString'', ''valueOf'', ''__proto__'',
      ''toLocaleString'']"

definition function_prototype :: "string list" where
  "function_prototype =
     [''length'', ''name'', ''arguments'', ''caller'', ''constructor'', ''apply'', ''bind'',
      ''call'', ''toString'']"

definition array_prototype :: "string list" where
  "array_prototype =
     [''length'', ''constructor'', ''at'', ''concat'', ''copyWithin'', ''fill'', ''find'',
      ''findIndex'', ''findLast'', ''findLastIndex'', ''lastIndexOf'', ''pop'', ''push'',
      ''reverse'', ''shift'', ''unshift'', ''slice'', ''sort'', ''splice'', ''includes'',
      ''indexOf'', ''join'', ''keys'', ''entries'', ''values'', ''forEach'', ''filter'',
      ''flat'', ''flatMap'', ''map'', ''every'', ''some'', ''reduce'', ''reduceRight'',
      ''toLocaleString'', ''toString'', ''toReversed'', ''toSorted'', ''toSpliced'',
      ''with'']"

definition string_prototype :: "string list" where
  "string_prototype =
     [''length'', ''constructor'', ''anchor'', ''at'', ''big'', ''blink'', ''bold'',
      ''charAt'', ''charCodeAt'', ''codePointAt'', ''concat'', ''endsWith'', ''fontcolor'',
      ''fontsize'', ''fixed'', ''includes'', ''indexOf'', ''isWellFormed'', ''italics'',
      ''lastIndexOf'', ''link'', ''localeCompare'', ''match'', ''matchAll'', ''normalize'',
      ''padEnd'', ''padStart'', ''repeat'', ''replace'', ''replaceAll'', ''search'',
      ''slice'', ''small'', ''split'', ''strike'', ''sub'', ''substr'', ''substring'',
      ''sup'', ''startsWith'', ''toString'', ''toWellFormed'', ''trim'', ''trimStart'',
      ''trimLeft'', ''trimEnd'', ''trimRight'', ''toLocaleLowerCase'',
      ''toLocaleUpperCase'', ''toLowerCase'', ''toUpperCase'', ''valueOf'']"

definition number_prototype :: "string list" where
  "number_prototype =
     [''constructor'', ''toExponential'', ''toFixed'', ''toPrecision'', ''toString'',
      ''valueOf'', ''toLocaleString'']"

definition boolean_prototype :: "string list" where
  "boolean_prototype = [''constructor'', ''toString'', ''valueOf'']"

text \<open>The prototypes that a value inherits from, the nearest first, each with its name.\<close>

fun prototype_chain :: "jsval \<Rightarrow> (string \<times> string list) list" where
  "prototype_chain (Obj kvs) = [(''Object'', object_prototype)]"
| "prototype_chain (Arr xs) = [(''Array'', array_prototype), (''Object'', object_prototype)]"
| "prototype_chain (Str s) = [(''String'', string_prototype), (''Object'', object_prototype)]"
| "prototype_chain (Num n) = [(''Number'', number_prototype), (''Object'', object_prototype)]"
| "prototype_chain (Bool b) =
     [(''Boolean'', boolean_prototype), (''Object'', object_prototype)]"
| "prototype_chain (Fn f) =
     [(''Function'', function_prototype), (''Object'', object_prototype)]"
| "prototype_chain v = []"

text \<open>
  What a prototype holds under one of its names is a built-in function, known by its
  identity like every function: the identities from \<open>2^32\<close> on are those of the
  built-in functions, in the order of \<open>built_ins\<close>.
\<close>

definition built_ins :: "(string \<times> string) list" where
  "built_ins =
     concat (map (\<lambda>(owner, names). map (Pair owner) names)
       [(''Object'', object_prototype), (''Function'', function_prototype),
        (''Array'', array_prototype), (''String'', string_prototype),
        (''Number'', number_prototype), (''Boolean'', boolean_prototype)])"

definition built_in :: "string \<Rightarrow> string \<Rightarrow> jsval" where
  "built_in owner name =
     Fn (4294967296 + length (takeWhile (\<lambda>b. b \<noteq> (owner, name)) built_ins))"

fun inherited_from :: "(string \<times> string list) list \<Rightarrow> string \<Rightarrow> jsval" where
  "inherited_from [] k = Undefined"
| "inherited_from ((owner, names) # chain) k =
     (if k \<in> set names then built_in owner k else inherited_from chain k)"

text \<open>
  \<^verbatim>\<open>__proto__\<close> reads the nearest prototype itself: \<^verbatim>\<open>Array.prototype\<close> is an empty
  array, \<^verbatim>\<open>Function.prototype\<close> a function, and the others are objects without
  enumerable properties.
\<close>

fun prototype_of :: "jsval \<Rightarrow> jsval" where
  "prototype_of (Arr xs) = Arr []"
| "prototype_of (Fn f) = built_in ''Function'' ''prototype''"
| "prototype_of v = Obj []"

definition inherited :: "jsval \<Rightarrow> string \<Rightarrow> jsval" where
  "inherited object k =
     (if k = ''__proto__'' \<and> prototype_chain object \<noteq> [] then prototype_of object
      else inherited_from (prototype_chain object) k)"

text \<open>
  The own properties of a function depend on its declaration, which is not part of the
  model: its \<^verbatim>\<open>name\<close> is some string, its \<^verbatim>\<open>length\<close> some number that is not negative,
  and its \<^verbatim>\<open>prototype\<close> some value (\<^verbatim>\<open>undefined\<close> for an arrow function).
\<close>

definition function_name :: "nat \<Rightarrow> string" where
  "function_name = (SOME name. True)"

definition function_length :: "nat \<Rightarrow> nat" where
  "function_length = (SOME arity. True)"

definition function_prototype_property :: "nat \<Rightarrow> jsval" where
  "function_prototype_property = (SOME object. True)"

text \<open>The own property of a value under a string key, if it has one.\<close>

fun own_prop :: "jsval \<Rightarrow> string \<Rightarrow> jsval option" where
  "own_prop (Obj kvs) k = map_of kvs k"
| "own_prop (Arr xs) k =
     (case array_index k of
        Some i \<Rightarrow> if i < length xs \<and> xs ! i \<noteq> Hole then Some (xs ! i) else None
      | None \<Rightarrow> if k = ''length'' then Some (Num (int (length xs))) else None)"
| "own_prop (Str s) k =
     (case array_index k of
        Some i \<Rightarrow> if i < length s then Some (Str [s ! i]) else None
      | None \<Rightarrow> if k = ''length'' then Some (Num (int (length s))) else None)"
| "own_prop (Fn f) k =
     (if k = ''name'' then Some (Str (function_name f))
      else if k = ''length'' then Some (Num (int (function_length f)))
      else if k = ''prototype'' \<and> function_prototype_property f \<noteq> Undefined
        then Some (function_prototype_property f)
      else None)"
| "own_prop v k = None"

text \<open>\<^verbatim>\<open>object[key]\<close> for a string key: the own property, or else what is inherited.\<close>

definition get_prop :: "jsval \<Rightarrow> string \<Rightarrow> jsval" where
  "get_prop object k =
     (case own_prop object k of Some v \<Rightarrow> v | None \<Rightarrow> inherited object k)"

text \<open>\<^verbatim>\<open>key in Object(object)\<close>.\<close>

definition has_property :: "jsval \<Rightarrow> string \<Rightarrow> bool" where
  "has_property object k =
     (own_prop object k \<noteq> None \<or> k \<in> set (concat (map snd (prototype_chain object))))"

text \<open>Writing a property of an object keeps its place when the key exists and appends it
  otherwise.\<close>

fun alist_put :: "string \<Rightarrow> jsval \<Rightarrow> (string \<times> jsval) list \<Rightarrow> (string \<times> jsval) list" where
  "alist_put k v [] = [(k, v)]"
| "alist_put k v ((k', v') # kvs) =
     (if k' = k then (k, v) # kvs else (k', v') # alist_put k v kvs)"

text \<open>\<^verbatim>\<open>object[key] = value\<close>, lodash's \<^verbatim>\<open>assignValue\<close>. An index past the end of an
  array leaves holes before it.\<close>

fun assignValue :: "jsval \<Rightarrow> string \<Rightarrow> jsval \<Rightarrow> error + jsval" where
  "assignValue (Obj kvs) k v = Inr (Obj (alist_put k v kvs))"
| "assignValue (Arr xs) k v =
     (case array_index k of
        Some i \<Rightarrow>
          Inr (Arr (if i < length xs then xs[i := v]
                    else xs @ replicate (i - length xs) Hole @ [v]))
      | None \<Rightarrow> Inl Unmodelled)"
| "assignValue obj k v = Inl Unmodelled"

section \<open>lodash paths\<close>

text \<open>
  \<^verbatim>\<open>reIsPlainProp = /^\w*$/\<close> and
  \<^verbatim>\<open>reIsDeepProp = /\.|\[(?:[^[\]]*|(["'])(?:(?!\1)[^\\]|\\.)*?\1)\]/\<close>.
  The second one finds a dot, or an opening bracket with a closing bracket after it: when
  its quoted alternative matches from some \<^verbatim>\<open>[\<close> to some \<^verbatim>\<open>]\<close>, the last \<^verbatim>\<open>[\<close> before
  that \<^verbatim>\<open>]\<close> and the first \<^verbatim>\<open>]\<close> after it have no bracket between them, which is the
  first alternative.
\<close>

definition reIsPlainProp_test :: "string \<Rightarrow> bool" where
  "reIsPlainProp_test s = list_all is_word_char s"

definition reIsDeepProp_test :: "string \<Rightarrow> bool" where
  "reIsDeepProp_test s =
     (CHR ''.'' \<in> set s \<or> CHR '']'' \<in> set (dropWhile (\<lambda>c. c \<noteq> CHR ''['') s))"

definition isKey :: "string \<Rightarrow> jsval \<Rightarrow> bool" where
  "isKey v object =
     (if reIsPlainProp_test v then True
      else if reIsDeepProp_test v
        then object \<noteq> Null \<and> object \<noteq> Undefined \<and> has_property object v
      else True)"

text \<open>
  \<^verbatim>\<open>stringToPath\<close> collects the matches of
  \<^verbatim>\<open>rePropName = /[^.[\]]+|\[(?:(-?\d+(?:\.\d+)?)|(["'])((?:(?!\2)[^\\]|\\.)*?)\2)\]|(?=(?:\.|\[\])(?:\.|\[\]|$))/g\<close>
  from left to right: a run of characters other than \<^verbatim>\<open>.\<close>, \<^verbatim>\<open>[\<close>, \<^verbatim>\<open>]\<close>; a
  bracketed number; a bracketed quoted string, unescaped; or the empty key between two
  separators. A position where nothing matches is skipped.
\<close>

definition is_special :: "char \<Rightarrow> bool" where
  "is_special c = (c = CHR ''.'' \<or> c = CHR ''['' \<or> c = CHR '']'')"

definition is_quote :: "char \<Rightarrow> bool" where
  "is_quote c = (c = CHR 0x22 \<or> c = CHR 0x27)"

definition is_line_terminator :: "char \<Rightarrow> bool" where
  "is_line_terminator c = (c = CHR 0x0A \<or> c = CHR 0x0D)"

text \<open>After \<^verbatim>\<open>[\<close>: \<^verbatim>\<open>-?\d+(?:\.\d+)?\]\<close>. The result is the number's text and the rest
  of the input.\<close>

definition bracket_number :: "string \<Rightarrow> (string \<times> string) option" where
  "bracket_number cs =
     (let sgn = (if cs \<noteq> [] \<and> hd cs = CHR ''-'' then ''-'' else '''');
          r1 = drop (length sgn) cs;
          d1 = takeWhile is_digit r1;
          r2 = dropWhile is_digit r1
      in if d1 = [] then None
         else (case r2 of
                 [] \<Rightarrow> None
               | c # r3 \<Rightarrow>
                   if c = CHR '']'' then Some (sgn @ d1, r3)
                   else if c = CHR ''.'' then
                     (let d2 = takeWhile is_digit r3; r4 = dropWhile is_digit r3
                      in if d2 \<noteq> [] \<and> r4 \<noteq> [] \<and> hd r4 = CHR '']''
                         then Some (sgn @ d1 @ ''.'' @ d2, tl r4) else None)
                   else None))"

text \<open>After the opening quote \<open>q\<close>: \<^verbatim>\<open>((?:(?!q)[^\\]|\\.)*?)q\<close>. The result is the raw
  text between the quotes and the input after the closing quote.\<close>

fun quoted_body :: "char \<Rightarrow> string \<Rightarrow> (string \<times> string) option" where
  "quoted_body q [] = None"
| "quoted_body q [c] = (if c = q then Some ([], []) else None)"
| "quoted_body q (c # d # cs) =
     (if c = q then Some ([], d # cs)
      else if c = CHR 0x5C then
        (if is_line_terminator d then None
         else (case quoted_body q cs of
                 None \<Rightarrow> None
               | Some (b, r) \<Rightarrow> Some (c # d # b, r)))
      else (case quoted_body q (d # cs) of
              None \<Rightarrow> None
            | Some (b, r) \<Rightarrow> Some (c # b, r)))"

text \<open>\<^verbatim>\<open>subString.replace(/\\(\\)?/g, '$1')\<close>.\<close>

fun unescape :: "string \<Rightarrow> string" where
  "unescape [] = []"
| "unescape [c] = (if c = CHR 0x5C then [] else [c])"
| "unescape (c # d # cs) =
     (if c = CHR 0x5C then (if d = CHR 0x5C then d # unescape cs else unescape (d # cs))
      else c # unescape (d # cs))"

definition bracket_quoted :: "string \<Rightarrow> (string \<times> string) option" where
  "bracket_quoted cs =
     (case cs of
        [] \<Rightarrow> None
      | q # r \<Rightarrow>
          if is_quote q then
            (case quoted_body q r of
               None \<Rightarrow> None
             | Some (b, r') \<Rightarrow>
                 if r' \<noteq> [] \<and> hd r' = CHR '']'' then Some (unescape b, tl r') else None)
          else None)"

definition bracket_token :: "string \<Rightarrow> (string \<times> string) option" where
  "bracket_token cs =
     (case bracket_number cs of
        Some r \<Rightarrow> Some r
      | None \<Rightarrow> bracket_quoted cs)"

text \<open>The lookahead \<^verbatim>\<open>(?=(?:\.|\[\])(?:\.|\[\]|$))\<close>.\<close>

definition separator_ahead :: "string \<Rightarrow> bool" where
  "separator_ahead cs =
     (let after = (\<lambda>r. r = [] \<or> hd r = CHR ''.'' \<or> take 2 r = ''[]'')
      in (cs \<noteq> [] \<and> hd cs = CHR ''.'' \<and> after (tl cs)) \<or>
         (take 2 cs = ''[]'' \<and> after (drop 2 cs)))"

lemma quoted_body_rest: "quoted_body q cs = Some (b, r) \<Longrightarrow> length r < length cs"
  by (induction q cs arbitrary: b r rule: quoted_body.induct)
     (fastforce split: if_splits option.splits)+

lemma bracket_number_rest: "bracket_number cs = Some (t, r) \<Longrightarrow> length r < length cs"
proof -
  assume a: "bracket_number cs = Some (t, r)"
  define sgn where "sgn = (if cs \<noteq> [] \<and> hd cs = CHR ''-'' then ''-'' else '''')"
  define r1 where "r1 = drop (length sgn) cs"
  have l1: "length r1 \<le> length cs" by (simp add: r1_def)
  have l2: "length (dropWhile is_digit r1) \<le> length r1" by (rule length_dropWhile_le)
  obtain c r3 where r2: "dropWhile is_digit r1 = c # r3"
    using a unfolding bracket_number_def Let_def sgn_def [symmetric] r1_def [symmetric]
    by (auto split: if_splits list.splits)
  have l3: "length r3 < length cs" using l1 l2 r2 by simp
  have l4: "length (dropWhile is_digit r3) \<le> length r3" by (rule length_dropWhile_le)
  have "r = r3 \<or> r = tl (dropWhile is_digit r3)"
    using a r2 unfolding bracket_number_def Let_def sgn_def [symmetric] r1_def [symmetric]
    by (auto split: if_splits)
  then show ?thesis using l3 l4 by auto
qed

lemma bracket_token_rest: "bracket_token cs = Some (t, r) \<Longrightarrow> length r < length cs"
  unfolding bracket_token_def bracket_quoted_def
  by (auto split: option.splits list.splits if_splits
      dest!: bracket_number_rest quoted_body_rest)

function scan_path :: "string \<Rightarrow> string list" where
  "scan_path [] = []"
| "scan_path (c # cs) =
     (if \<not> is_special c then
        (c # takeWhile (\<lambda>x. \<not> is_special x) cs)
          # scan_path (dropWhile (\<lambda>x. \<not> is_special x) cs)
      else if c = CHR ''['' then
        (case bracket_token cs of
           Some (tok, rest) \<Rightarrow> tok # scan_path rest
         | None \<Rightarrow> if separator_ahead (c # cs) then [] # scan_path cs else scan_path cs)
      else if separator_ahead (c # cs) then [] # scan_path cs
      else scan_path cs)"
  by pat_completeness auto

termination
  by (relation "measure length")
     (auto simp: less_Suc_eq_le length_dropWhile_le dest: bracket_token_rest)

text \<open>\<^verbatim>\<open>stringToPath\<close> starts with an empty key when the string starts with a dot.\<close>

definition stringToPath :: "string \<Rightarrow> string list" where
  "stringToPath s =
     (if s \<noteq> [] \<and> hd s = CHR ''.'' then [] # scan_path s else scan_path s)"

definition castPath :: "string \<Rightarrow> jsval \<Rightarrow> string list" where
  "castPath v object = (if isKey v object then [v] else stringToPath v)"

section \<open>lodash get, set, pullAt, cloneDeep\<close>

text \<open>The loop of \<^verbatim>\<open>baseGet\<close>: it stops at \<^verbatim>\<open>null\<close> or \<^verbatim>\<open>undefined\<close>, and the result
  is \<^verbatim>\<open>undefined\<close> unless every key was used.\<close>

fun baseGet_loop :: "jsval \<Rightarrow> string list \<Rightarrow> jsval" where
  "baseGet_loop object [] = object"
| "baseGet_loop object (k # ks) =
     (if object = Null \<or> object = Undefined then Undefined
      else baseGet_loop (get_prop object k) ks)"

definition baseGet :: "jsval \<Rightarrow> string list \<Rightarrow> jsval" where
  "baseGet object ks = (if ks = [] then Undefined else baseGet_loop object ks)"

definition lodash_get :: "jsval \<Rightarrow> string \<Rightarrow> jsval \<Rightarrow> jsval" where
  "lodash_get object path defaultValue =
     (let result = (if object = Null \<or> object = Undefined then Undefined
                    else baseGet object (castPath path object))
      in if result = Undefined then defaultValue else result)"

text \<open>
  The loop of \<^verbatim>\<open>baseSet\<close>. A missing or primitive step is replaced by a new array when
  the next key is an index and by a new object otherwise. At one of the keys
  \<^verbatim>\<open>__proto__\<close>, \<^verbatim>\<open>constructor\<close> and \<^verbatim>\<open>prototype\<close> lodash stops and returns the
  object: nothing is written at that key or below it, and what was assigned on the way to
  it stays.
\<close>

fun baseSet_loop :: "jsval \<Rightarrow> string list \<Rightarrow> jsval \<Rightarrow> error + jsval" where
  "baseSet_loop nested [] v = Inr nested"
| "baseSet_loop nested (k # ks) v =
     (if k = ''__proto__'' \<or> k = ''constructor'' \<or> k = ''prototype'' then Inr nested
      else if ks = [] then assignValue nested k v
      else
        (let objValue = get_prop nested k;
             newValue = (if isObject objValue then objValue
                         else if isIndex (hd ks) then Arr [] else Obj [])
         in case baseSet_loop newValue ks v of
              Inl e \<Rightarrow> Inl e
            | Inr child \<Rightarrow> assignValue nested k child))"

definition lodash_set :: "jsval \<Rightarrow> string \<Rightarrow> jsval \<Rightarrow> error + jsval" where
  "lodash_set object path v =
     (if isObject object then baseSet_loop object (castPath path object) v else Inr object)"

text \<open>
  \<^verbatim>\<open>pullAt(array, index)\<close> for a number \<open>index\<close>, as a function from the value it is
  handed to the value that is there afterwards. On an array, an index inside it is removed
  by \<^verbatim>\<open>splice\<close> and later elements move down, holes included; any other index changes
  nothing. \<^verbatim>\<open>null\<close>, \<^verbatim>\<open>undefined\<close> and the falsy primitives are left alone
  (\<^verbatim>\<open>basePullAt\<close> does not loop). For an index that is not negative, \<^verbatim>\<open>splice\<close> is
  called on anything else: it throws on a non-empty string and on a function, whose
  \<^verbatim>\<open>length\<close> cannot be written, does nothing to a number or \<^verbatim>\<open>true\<close>, and gives an
  object without a \<^verbatim>\<open>length\<close> the property \<^verbatim>\<open>length: 0\<close>. A negative index deletes the
  property of that name.
\<close>

fun pullAt :: "jsval \<Rightarrow> int \<Rightarrow> error + jsval" where
  "pullAt (Arr xs) i =
     Inr (Arr (if 0 \<le> i \<and> nat i < length xs then take (nat i) xs @ drop (Suc (nat i)) xs
               else xs))"
| "pullAt (Str s) i = (if s \<noteq> [] \<and> 0 \<le> i then Inl TypeError else Inr (Str s))"
| "pullAt (Fn f) i = (if 0 \<le> i then Inl TypeError else Inr (Fn f))"
| "pullAt (Obj kvs) i =
     (if 0 \<le> i then
        (if ''length'' \<in> fst ` set kvs then Inl Unmodelled
         else Inr (Obj (kvs @ [(''length'', Num 0)])))
      else Inr (Obj (filter (\<lambda>kv. fst kv \<noteq> ''-'' @ show_nat (nat (- i))) kvs)))"
| "pullAt v i = Inr v"

text \<open>The array that \<^verbatim>\<open>get\<close> returned is changed in place: the tree holds the new
  value where the path led.\<close>

fun write_back :: "jsval \<Rightarrow> string list \<Rightarrow> jsval \<Rightarrow> jsval" where
  "write_back t [] new = new"
| "write_back (Obj kvs) (k # ks) new =
     (case map_of kvs k of
        None \<Rightarrow> Obj kvs
      | Some v \<Rightarrow> Obj (alist_put k (write_back v ks new) kvs))"
| "write_back (Arr xs) (k # ks) new =
     (case array_index k of
        None \<Rightarrow> Arr xs
      | Some i \<Rightarrow> if i < length xs then Arr (xs[i := write_back (xs ! i) ks new]) else Arr xs)"
| "write_back t (k # ks) new = t"

definition pullAt_in :: "jsval \<Rightarrow> string \<Rightarrow> int \<Rightarrow> error + jsval" where
  "pullAt_in container path i =
     (let array = lodash_get container path Undefined
      in case pullAt array i of
           Inl e \<Rightarrow> Inl e
         | Inr array' \<Rightarrow>
             Inr (if array' = array then container
                  else write_back container (castPath path container) array'))"

text \<open>\<^verbatim>\<open>cloneDeep\<close> copies arrays index by index, so a hole becomes \<^verbatim>\<open>undefined\<close>; a
  function inside the value is kept and a function at the top becomes an empty object.\<close>

primrec cloneDeep_in :: "jsval \<Rightarrow> jsval" where
  "cloneDeep_in Undefined = Undefined"
| "cloneDeep_in Null = Null"
| "cloneDeep_in (Bool b) = Bool b"
| "cloneDeep_in (Num n) = Num n"
| "cloneDeep_in (Str s) = Str s"
| "cloneDeep_in (Fn f) = Fn f"
| "cloneDeep_in (Arr xs) = Arr (map cloneDeep_in xs)"
| "cloneDeep_in (Obj kvs) = Obj (map (map_prod id cloneDeep_in) kvs)"
| "cloneDeep_in Hole = Undefined"

definition cloneDeep :: "jsval \<Rightarrow> jsval" where
  "cloneDeep v = (case v of Fn f \<Rightarrow> Obj [] | _ \<Rightarrow> cloneDeep_in v)"

section \<open>keyify\<close>

text \<open>
  \<^verbatim>\<open>Object.keys(obj).reduce(callback, [])\<close>: \<open>keyify_props\<close> runs the reduction over the
  properties of an object and \<open>keyify_items\<close> over the indices of an array (when
  \<open>keyify\<close> is called on an array, its keys are its indices); \<open>keyify_step\<close> is the
  callback and \<open>keyify_forEach\<close> the \<^verbatim>\<open>forEach\<close> in its first branch, whose callback
  builds a list that nothing receives: only an exception leaves it.
  \<^verbatim>\<open>Object.keys\<close> throws a \<^verbatim>\<open>TypeError\<close> on \<^verbatim>\<open>null\<close> and \<^verbatim>\<open>undefined\<close>, gives the
  indices of a string and nothing for other primitives and for functions.
\<close>

function (sequential) keyify :: "jsval \<Rightarrow> string \<Rightarrow> error + string list"
  and keyify_props :: "(string \<times> jsval) list \<Rightarrow> string \<Rightarrow> string list \<Rightarrow> error + string list"
  and keyify_items :: "jsval list \<Rightarrow> nat \<Rightarrow> string \<Rightarrow> string list \<Rightarrow> error + string list"
  and keyify_forEach :: "jsval list \<Rightarrow> nat \<Rightarrow> string \<Rightarrow> error + unit"
  and keyify_step :: "string list \<Rightarrow> string \<Rightarrow> jsval \<Rightarrow> string \<Rightarrow> error + string list"
where
  "keyify (Obj kvs) prefix = keyify_props kvs prefix []"
| "keyify (Arr xs) prefix = keyify_items xs 0 prefix []"
| "keyify (Str s) prefix = Inr (map (\<lambda>i. prefix @ show_nat i) [0..<length s])"
| "keyify Undefined prefix = Inl TypeError"
| "keyify Null prefix = Inl TypeError"
| "keyify Hole prefix = Inl TypeError"
| "keyify (Bool b) prefix = Inr []"
| "keyify (Num n) prefix = Inr []"
| "keyify (Fn f) prefix = Inr []"
| "keyify_props [] prefix res = Inr res"
| "keyify_props ((el, v) # kvs) prefix res =
     (case keyify_step res el v prefix of
        Inl e \<Rightarrow> Inl e
      | Inr res' \<Rightarrow> keyify_props kvs prefix res')"
| "keyify_items [] i prefix res = Inr res"
| "keyify_items (x # xs) i prefix res =
     (if x = Hole then keyify_items xs (Suc i) prefix res
      else (case keyify_step res (show_nat i) x prefix of
              Inl e \<Rightarrow> Inl e
            | Inr res' \<Rightarrow> keyify_items xs (Suc i) prefix res'))"
| "keyify_forEach [] i prefix = Inr ()"
| "keyify_forEach (x # xs) i prefix =
     (if x = Hole then keyify_forEach xs (Suc i) prefix
      else (case keyify x (prefix @ ''['' @ show_nat i @ ''].'') of
              Inl e \<Rightarrow> Inl e
            | Inr _ \<Rightarrow> keyify_forEach xs (Suc i) prefix))"
| "keyify_step res el (Arr xs) prefix =
     (case (if xs \<noteq> [] then keyify_forEach xs 0 prefix else Inr ()) of
        Inl e \<Rightarrow> Inl e
      | Inr _ \<Rightarrow>
          (case keyify (Arr xs) (prefix @ el @ ''.'') of
             Inl e \<Rightarrow> Inl e
           | Inr ps \<Rightarrow> Inr (res @ ps)))"
| "keyify_step res el (Obj kvs) prefix =
     (case keyify (Obj kvs) (prefix @ el @ ''.'') of
        Inl e \<Rightarrow> Inl e
      | Inr ps \<Rightarrow> Inr (res @ ps))"
| "keyify_step res el v prefix = Inr (res @ [prefix @ el])"
  by pat_completeness auto

termination
  by (relation "measure (\<lambda>x. case x of
      Inl (Inl (v, _)) \<Rightarrow> 2 * size v
    | Inl (Inr (kvs, _)) \<Rightarrow> 2 * size_list (size_prod (\<lambda>_. 0) size) kvs + 1
    | Inr (Inl (xs, _)) \<Rightarrow> 2 * size_list size xs + 1
    | Inr (Inr (Inl (xs, _))) \<Rightarrow> 2 * size_list size xs + 1
    | Inr (Inr (Inr (_, _, v, _))) \<Rightarrow> 2 * size v + 1)")
     simp_all

section \<open>The store of FormProvider\<close>

text \<open>
  The refs of \<^verbatim>\<open>FormProvider\<close> as one record. A validator and a \<^verbatim>\<open>forceUpdate\<close>
  callback are functions, known by their identity (a number); the two containers of
  functions map a path to the list of functions pushed for it. \<open>rendered\<close> records the
  \<^verbatim>\<open>forceUpdate\<close> callbacks in the order they were called, and \<open>idCounter\<close> is the
  counter of lodash's \<^verbatim>\<open>uniqueId\<close>.
\<close>

record store =
  initState :: jsval
  formValue :: jsval
  formDirty :: jsval
  formError :: jsval
  formUniqueIds :: jsval
  localValidators :: "(string \<times> nat list) list"
  formValid :: bool
  invalidPathSet :: "string list"
  forceUpdates :: "nat list"
  forceUpdatesByPath :: "(string \<times> nat list) list"
  rendered :: "nat list"
  idCounter :: nat

text \<open>The props of the provider: the optional validator of the whole form, and what a
  validator function returns for a value (validators are pure).\<close>

record provider =
  contextValidator :: "(jsval \<Rightarrow> jsval \<Rightarrow> jsval) option"
  call :: "nat \<Rightarrow> jsval \<Rightarrow> jsval"

definition FormProvider :: "jsval \<Rightarrow> store" where
  "FormProvider initValue =
     \<lparr> initState = cloneDeep initValue,
       formValue = cloneDeep initValue,
       formDirty = Obj [],
       formError = Obj [],
       formUniqueIds = Obj [],
       localValidators = [],
       formValid = True,
       invalidPathSet = [],
       forceUpdates = [],
       forceUpdatesByPath = [],
       rendered = [],
       idCounter = 0 \<rparr>"

text \<open>A JavaScript \<^verbatim>\<open>Set\<close> of strings, in insertion order.\<close>

definition set_add :: "string \<Rightarrow> string list \<Rightarrow> string list" where
  "set_add p ps = (if p \<in> set ps then ps else ps @ [p])"

definition set_delete :: "string \<Rightarrow> string list \<Rightarrow> string list" where
  "set_delete p ps = removeAll p ps"

subsection \<open>The helpers push and remove\<close>

fun put_list :: "string \<Rightarrow> nat list \<Rightarrow> (string \<times> nat list) list \<Rightarrow> (string \<times> nat list) list" where
  "put_list k v [] = [(k, v)]"
| "put_list k v ((k', v') # kvs) =
     (if k' = k then (k, v) # kvs else (k', v') # put_list k v kvs)"

text \<open>\<^verbatim>\<open>container[path] || []\<close>\<close>

definition at_path :: "(string \<times> nat list) list \<Rightarrow> string \<Rightarrow> nat list" where
  "at_path container path = (case map_of container path of None \<Rightarrow> [] | Some fs \<Rightarrow> fs)"

definition push :: "(string \<times> nat list) list \<Rightarrow> string \<Rightarrow> nat \<Rightarrow> (string \<times> nat list) list" where
  "push container path functionToAdd =
     put_list path (at_path container path @ [functionToAdd]) container"

text \<open>\<^verbatim>\<open>func !== functionToRemove\<close> compares identities; what is removed may be any
  value, and only a function can be one of the functions of the list.\<close>

definition remove_fn :: "(string \<times> nat list) list \<Rightarrow> string \<Rightarrow> jsval \<Rightarrow> (string \<times> nat list) list" where
  "remove_fn container path functionToRemove =
     put_list path (filter (\<lambda>func. Fn func \<noteq> functionToRemove) (at_path container path))
       container"

text \<open>The container of validators as the object that \<^verbatim>\<open>get\<close> reads.\<close>

definition container_obj :: "(string \<times> nat list) list \<Rightarrow> jsval" where
  "container_obj container = Obj (map (\<lambda>(path, fs). (path, Arr (map Fn fs))) container)"

subsection \<open>Reading and writing the trees\<close>

definition getFormValues :: "store \<Rightarrow> string \<Rightarrow> jsval" where
  "getFormValues s path =
     (if path \<noteq> [] then lodash_get (formValue s) path (Str []) else formValue s)"

definition getFormDirty :: "store \<Rightarrow> string \<Rightarrow> jsval" where
  "getFormDirty s path =
     (if path \<noteq> [] then lodash_get (formDirty s) path (Str []) else formDirty s)"

definition getFormError :: "store \<Rightarrow> string \<Rightarrow> jsval" where
  "getFormError s path =
     (if path \<noteq> [] then lodash_get (formError s) path (Bool False) else formError s)"

definition getFormValid :: "store \<Rightarrow> bool" where
  "getFormValid s = formValid s"

definition setFormDirty :: "string \<Rightarrow> jsval \<Rightarrow> store \<Rightarrow> error + store" where
  "setFormDirty path v s =
     (case lodash_set (formDirty s) path v of
        Inl e \<Rightarrow> Inl e
      | Inr t \<Rightarrow> Inr (s\<lparr>formDirty := t\<rparr>))"

definition setFormError :: "string \<Rightarrow> jsval \<Rightarrow> store \<Rightarrow> error + store" where
  "setFormError path v s =
     (case lodash_set (formError s) path v of
        Inl e \<Rightarrow> Inl e
      | Inr t \<Rightarrow> Inr (s\<lparr>formError := t\<rparr>))"

text \<open>Calling a list of \<^verbatim>\<open>forceUpdate\<close> callbacks.\<close>

definition force :: "nat list \<Rightarrow> store \<Rightarrow> store" where
  "force fs s = s\<lparr>rendered := rendered s @ fs\<rparr>"

definition force_path :: "string \<Rightarrow> store \<Rightarrow> store" where
  "force_path path s = force (at_path (forceUpdatesByPath s) path) s"

subsection \<open>setFormValue\<close>

text \<open>\<^verbatim>\<open>reduce((acc, validator) => acc || validator(value), '')\<close>: a validator is called
  only while the accumulated message is falsy.\<close>

fun reduce_validators :: "(nat \<Rightarrow> jsval \<Rightarrow> jsval) \<Rightarrow> jsval list \<Rightarrow> jsval \<Rightarrow> jsval \<Rightarrow> error + jsval" where
  "reduce_validators c [] v acc = Inr acc"
| "reduce_validators c (f # fs) v acc =
     (if f = Hole \<or> truthy acc then reduce_validators c fs v acc
      else (case f of
              Fn n \<Rightarrow> reduce_validators c fs v (c n v)
            | _ \<Rightarrow> Inl TypeError))"

text \<open>What \<^verbatim>\<open>get(localValidators.current, path, [])\<close> returns has a \<^verbatim>\<open>reduce\<close> method
  only when it is an array.\<close>

definition runLocalValidators :: "(nat \<Rightarrow> jsval \<Rightarrow> jsval) \<Rightarrow> string \<Rightarrow> jsval \<Rightarrow> store \<Rightarrow> error + store" where
  "runLocalValidators c path v s =
     (case lodash_get (container_obj (localValidators s)) path (Arr []) of
        Arr fs \<Rightarrow>
          (case reduce_validators c fs v (Str []) of
             Inl e \<Rightarrow> Inl e
           | Inr errorMessage \<Rightarrow> setFormError path errorMessage s)
      | _ \<Rightarrow> Inl TypeError)"

text \<open>The \<^verbatim>\<open>forEach\<close> over \<^verbatim>\<open>keyify(errorObject)\<close>.\<close>

fun merge_errors :: "string \<Rightarrow> jsval \<Rightarrow> string list \<Rightarrow> store \<Rightarrow> error + store" where
  "merge_errors path errorObject [] s = Inr s"
| "merge_errors path errorObject (errorPath # ps) s =
     (let newErrorMessage = lodash_get errorObject errorPath Undefined;
          s1 = s\<lparr>invalidPathSet := set_add path (invalidPathSet s)\<rparr>
      in case setFormError errorPath newErrorMessage s1 of
           Inl e \<Rightarrow> Inl e
         | Inr s2 \<Rightarrow> merge_errors path errorObject ps s2)"

definition runContextValidator :: "provider \<Rightarrow> string \<Rightarrow> store \<Rightarrow> error + store" where
  "runContextValidator pv path s =
     (case contextValidator pv of
        None \<Rightarrow> Inr s
      | Some cv \<Rightarrow>
          (let errorObject = cv (formValue s) (formError s)
           in case keyify errorObject [] of
                Inl e \<Rightarrow> Inl e
              | Inr ps \<Rightarrow> merge_errors path errorObject ps s))"

text \<open>The end of \<^verbatim>\<open>setFormValue\<close>: the path joins or leaves the set of invalid paths,
  the form is valid when the set is empty, and the callbacks run.\<close>

definition updateValidity :: "string \<Rightarrow> store \<Rightarrow> store" where
  "updateValidity path s =
     (let errorMessage = lodash_get (formError s) path Undefined;
          ips = (if truthy errorMessage then set_add path (invalidPathSet s)
                 else set_delete path (invalidPathSet s));
          s1 = s\<lparr>invalidPathSet := ips, formValid := (ips = [])\<rparr>
      in force_path path (force (forceUpdates s1) s1))"

definition setFormValue :: "provider \<Rightarrow> string \<Rightarrow> jsval \<Rightarrow> store \<Rightarrow> error + store" where
  "setFormValue pv path v s =
     (case lodash_set (formValue s) path v of
        Inl e \<Rightarrow> Inl e
      | Inr t \<Rightarrow>
          (case runLocalValidators (call pv) path v (s\<lparr>formValue := t\<rparr>) of
             Inl e \<Rightarrow> Inl e
           | Inr s1 \<Rightarrow>
               (case runContextValidator pv path s1 of
                  Inl e \<Rightarrow> Inl e
                | Inr s2 \<Rightarrow> Inr (updateValidity path s2))))"

subsection \<open>subscribe\<close>

text \<open>The \<^verbatim>\<open>forEach\<close> over a list of validators: a function is pushed, anything else
  throws.\<close>

fun push_each :: "string \<Rightarrow> jsval list \<Rightarrow> (string \<times> nat list) list \<Rightarrow> error + (string \<times> nat list) list" where
  "push_each path [] container = Inr container"
| "push_each path (f # fs) container =
     (case f of
        Hole \<Rightarrow> push_each path fs container
      | Fn n \<Rightarrow> push_each path fs (push container path n)
      | _ \<Rightarrow> Inl (Error (''Path: '' @ path @ '', has invalid validate function'')))"

definition register_validate :: "string \<Rightarrow> jsval \<Rightarrow> (string \<times> nat list) list \<Rightarrow> error + (string \<times> nat list) list" where
  "register_validate path validate container =
     (case (case validate of
              Arr fs \<Rightarrow> if fs \<noteq> [] then push_each path fs container else Inr container
            | _ \<Rightarrow> Inr container) of
        Inl e \<Rightarrow> Inl e
      | Inr c1 \<Rightarrow>
          Inr (case validate of Fn n \<Rightarrow> push c1 path n | _ \<Rightarrow> c1))"

definition subscribe :: "provider \<Rightarrow> string \<Rightarrow> jsval \<Rightarrow> store \<Rightarrow> error + store" where
  "subscribe pv path validate s =
     (case register_validate path validate (localValidators s) of
        Inl e \<Rightarrow> Inl e
      | Inr c \<Rightarrow>
          (let s0 = s\<lparr>localValidators := c\<rparr>
           in case setFormValue pv path (getFormValues s0 path) s0 of
                Inl e \<Rightarrow> Inl e
              | Inr s1 \<Rightarrow>
                  (case setFormDirty path (getFormDirty s1 path) s1 of
                     Inl e \<Rightarrow> Inl e
                   | Inr s2 \<Rightarrow> setFormError path (getFormError s2 path) s2)))"

text \<open>The function that \<^verbatim>\<open>subscribe({path, validate})\<close> returns.\<close>

fun remove_each :: "string \<Rightarrow> jsval list \<Rightarrow> (string \<times> nat list) list \<Rightarrow> (string \<times> nat list) list" where
  "remove_each path [] container = container"
| "remove_each path (f # fs) container =
     (if f = Hole then remove_each path fs container
      else remove_each path fs (remove_fn container path f))"

definition disposer :: "string \<Rightarrow> jsval \<Rightarrow> store \<Rightarrow> store" where
  "disposer path validate s =
     s\<lparr>localValidators :=
         (case validate of
            Arr fs \<Rightarrow>
              if fs \<noteq> [] then remove_each path fs (localValidators s)
              else remove_fn (localValidators s) path validate
          | _ \<Rightarrow> remove_fn (localValidators s) path validate)\<rparr>"

subsection \<open>initialize, reset, submit\<close>

fun dirty_each :: "bool \<Rightarrow> string list \<Rightarrow> store \<Rightarrow> error + store" where
  "dirty_each b [] s = Inr s"
| "dirty_each b (path # ps) s =
     (case setFormDirty path (Bool b) s of
        Inl e \<Rightarrow> Inl e
      | Inr s1 \<Rightarrow> dirty_each b ps (force_path path s1))"

definition setAllFormDirty :: "bool \<Rightarrow> store \<Rightarrow> error + store" where
  "setAllFormDirty b s =
     (case keyify (formDirty s) [] of
        Inl e \<Rightarrow> Inl e
      | Inr ps \<Rightarrow> dirty_each b ps s)"

fun value_each :: "provider \<Rightarrow> jsval \<Rightarrow> string list \<Rightarrow> store \<Rightarrow> error + store" where
  "value_each pv newFormState [] s = Inr s"
| "value_each pv newFormState (path # ps) s =
     (case setFormValue pv path (lodash_get newFormState path Undefined) s of
        Inl e \<Rightarrow> Inl e
      | Inr s1 \<Rightarrow> value_each pv newFormState ps s1)"

text \<open>
  The third parameter is the pattern \<^verbatim>\<open>{ keepDirty = false }\<close> with no default of its
  own: a call without a third argument throws when the parameters are bound. \<open>None\<close> is
  that call, \<open>Some None\<close> an object without \<^verbatim>\<open>keepDirty\<close>.
\<close>

definition initialize :: "provider \<Rightarrow> jsval \<Rightarrow> bool \<Rightarrow> bool option option \<Rightarrow> store \<Rightarrow> error + store" where
  "initialize pv newFormState replaceInitState options s =
     (case options of
        None \<Rightarrow> Inl TypeError
      | Some keepDirtyOpt \<Rightarrow>
          (let keepDirty = (case keepDirtyOpt of None \<Rightarrow> False | Some b \<Rightarrow> b);
               s0 = (if replaceInitState then s\<lparr>initState := cloneDeep newFormState\<rparr> else s)
           in case keyify newFormState [] of
                Inl e \<Rightarrow> Inl e
              | Inr ps \<Rightarrow>
                  (case value_each pv newFormState ps s0 of
                     Inl e \<Rightarrow> Inl e
                   | Inr s1 \<Rightarrow> if keepDirty then Inr s1 else setAllFormDirty False s1)))"

definition reset :: "provider \<Rightarrow> store \<Rightarrow> error + store" where
  "reset pv s = initialize pv (initState s) False (Some (Some False)) s"

text \<open>\<^verbatim>\<open>submit\<close> returns \<^verbatim>\<open>{valid, values, errors}\<close>; here with the store it leaves.\<close>

definition submit :: "store \<Rightarrow> error + ((bool \<times> jsval \<times> jsval) \<times> store)" where
  "submit s =
     (case setAllFormDirty True s of
        Inl e \<Rightarrow> Inl e
      | Inr s1 \<Rightarrow> Inr ((getFormValid s1, getFormValues s1 [], getFormError s1 []), s1))"

subsection \<open>arrayPush, arrayRemove\<close>

text \<open>The default \<^verbatim>\<open>value = null\<close> stands in for \<^verbatim>\<open>undefined\<close>.\<close>

definition arrayPush :: "provider \<Rightarrow> string \<Rightarrow> jsval \<Rightarrow> store \<Rightarrow> error + store" where
  "arrayPush pv path v0 s =
     (let v = (if v0 = Undefined then Null else v0);
          currentValue = lodash_get (formValue s) path Undefined;
          currentArrayLength = (case currentValue of Arr xs \<Rightarrow> length xs | _ \<Rightarrow> 0)
      in case (if truthy v
               then setFormValue pv (path @ ''['' @ show_nat currentArrayLength @ '']'') v s
               else Inr s) of
           Inl e \<Rightarrow> Inl e
         | Inr s1 \<Rightarrow> Inr (force_path path s1))"

definition arrayRemove :: "string \<Rightarrow> int \<Rightarrow> store \<Rightarrow> error + store" where
  "arrayRemove path i s =
     (let currentValue = lodash_get (formValue s) path Undefined
      in if \<not> isArray currentValue
         then Inl (Error ''You are not removing from an array: %s'')
         else
           (case pullAt_in (formValue s) path i of
              Inl e \<Rightarrow> Inl e
            | Inr fv \<Rightarrow>
                (case pullAt_in (formError s) path i of
                   Inl e \<Rightarrow> Inl e
                 | Inr fe \<Rightarrow>
                     (case pullAt_in (formDirty s) path i of
                        Inl e \<Rightarrow> Inl e
                      | Inr fd \<Rightarrow>
                          (case pullAt_in (formUniqueIds s) path i of
                             Inl e \<Rightarrow> Inl e
                           | Inr fu \<Rightarrow>
                               Inr (force_path path
                                 (s\<lparr>formValue := fv, formError := fe, formDirty := fd,
                                    formUniqueIds := fu\<rparr>)))))))"

subsection \<open>subscribeForceUpdate, getFormItemUniqueId\<close>

definition subscribeForceUpdate :: "string \<Rightarrow> nat \<Rightarrow> store \<Rightarrow> store" where
  "subscribeForceUpdate path forceUpdate s =
     (if path \<noteq> [] then s\<lparr>forceUpdatesByPath := push (forceUpdatesByPath s) path forceUpdate\<rparr>
      else s\<lparr>forceUpdates := forceUpdates s @ [forceUpdate]\<rparr>)"

definition forceUpdate_disposer :: "string \<Rightarrow> nat \<Rightarrow> store \<Rightarrow> store" where
  "forceUpdate_disposer path forceUpdate s =
     (if path \<noteq> []
      then s\<lparr>forceUpdatesByPath := remove_fn (forceUpdatesByPath s) path (Fn forceUpdate)\<rparr>
      else s\<lparr>forceUpdates := filter (\<lambda>func. func \<noteq> forceUpdate) (forceUpdates s)\<rparr>)"

definition getFormItemUniqueId :: "string \<Rightarrow> store \<Rightarrow> error + (jsval \<times> store)" where
  "getFormItemUniqueId path s =
     (let found = lodash_get (formUniqueIds s) path Undefined
      in if truthy found then Inr (found, s)
         else
           (let n = Suc (idCounter s); ident = Str (''formItem_'' @ show_nat n)
            in case lodash_set (formUniqueIds s) path ident of
                 Inl e \<Rightarrow> Inl e
               | Inr t \<Rightarrow> Inr (ident, s\<lparr>formUniqueIds := t, idCounter := n\<rparr>)))"

section \<open>Example forms\<close>

text \<open>Running one operation after another; an exception ends the run.\<close>

definition and_then :: "error + 'a \<Rightarrow> ('a \<Rightarrow> error + 'b) \<Rightarrow> error + 'b" where
  "and_then r f = (case r of Inl e \<Rightarrow> Inl e | Inr a \<Rightarrow> f a)"

text \<open>The validator \<^verbatim>\<open>v => v ? '' : 'required'\<close>, a validator for a list that accepts
  at most two items, and a validator of the whole form that reports the field
  \<^verbatim>\<open>other\<close>.\<close>

definition required :: "nat \<Rightarrow> jsval \<Rightarrow> jsval" where
  "required n v = (if truthy v then Str [] else Str ''required'')"

definition at_most_two :: "nat \<Rightarrow> jsval \<Rightarrow> jsval" where
  "at_most_two n v =
     (case v of Arr xs \<Rightarrow> if 2 < length xs then Str ''too many'' else Str [] | _ \<Rightarrow> Str [])"

definition other_is_bad :: "jsval \<Rightarrow> jsval \<Rightarrow> jsval" where
  "other_is_bad formValues formErrors = Obj [(''other'', Str ''bad'')]"

definition plain_form :: provider where
  "plain_form = \<lparr> contextValidator = None, call = required \<rparr>"

definition short_list_form :: provider where
  "short_list_form = \<lparr> contextValidator = None, call = at_most_two \<rparr>"

definition checked_form :: provider where
  "checked_form = \<lparr> contextValidator = Some other_is_bad, call = required \<rparr>"

text \<open>What the claims observe of a store.\<close>

definition value_at :: "string \<Rightarrow> store \<Rightarrow> jsval" where
  "value_at path s = getFormValues s path"

definition validity_at :: "string \<Rightarrow> store \<Rightarrow> bool \<times> bool \<times> bool" where
  "validity_at path s =
     (path \<in> set (invalidPathSet s), truthy (getFormError s path), getFormValid s)"

definition error_view :: "store \<Rightarrow> jsval \<times> string list \<times> bool" where
  "error_view s = (formError s, invalidPathSet s, getFormValid s)"

section \<open>Evaluation\<close>

lemmas path_defs = castPath_def isKey_def reIsPlainProp_test_def reIsDeepProp_test_def
  is_word_char_def stringToPath_def is_special_def bracket_token_def bracket_number_def
  bracket_quoted_def is_digit_def is_quote_def separator_ahead_def
  array_index_def isIndex_def reIsUint_test_def read_nat_def digit_val_def
  show_nat.simps digit_char_def

lemmas lodash_defs = lodash_get_def lodash_set_def baseGet_def pullAt_in_def cloneDeep_def
  get_prop_def has_property_def inherited_def object_prototype_def function_prototype_def
  array_prototype_def string_prototype_def number_prototype_def boolean_prototype_def

lemmas store_defs = FormProvider_def set_add_def set_delete_def at_path_def push_def
  remove_fn_def container_obj_def getFormValues_def getFormDirty_def getFormError_def
  getFormValid_def setFormDirty_def setFormError_def force_def force_path_def
  runLocalValidators_def runContextValidator_def updateValidity_def setFormValue_def
  register_validate_def subscribe_def disposer_def setAllFormDirty_def initialize_def
  reset_def submit_def arrayPush_def arrayRemove_def subscribeForceUpdate_def
  forceUpdate_disposer_def Let_def

lemmas example_defs = and_then_def required_def at_most_two_def other_is_bad_def
  plain_form_def short_list_form_def checked_form_def value_at_def validity_at_def
  error_view_def

section \<open>keyify: the listed paths\<close>

text \<open>
  C9: \<^verbatim>\<open>keyify({a: {b: 1}, c: []})\<close> is exactly the path \<^verbatim>\<open>a.b\<close>. The empty array at
  \<^verbatim>\<open>c\<close> contributes no path and neither does an empty object in its place: under any
  key and any prefix, the callback of the reduction returns the accumulated paths
  unchanged for both. The scalar leaf \<^verbatim>\<open>a.b\<close> is listed.
\<close>

theorem keyify_skips_empty_containers:
  "keyify (Obj [(''a'', Obj [(''b'', Num 1)]), (''c'', Arr [])]) [] = Inr [''a.b''] \<and>
   keyify (Obj [(''a'', Obj [(''b'', Num 1)]), (''c'', Obj [])]) [] = Inr [''a.b''] \<and>
   keyify_step res el (Arr []) prefix = Inr res \<and>
   keyify_step res el (Obj []) prefix = Inr res"
  by simp

text \<open>
  C2: the claim says that the elements of a non-empty array at key \<^verbatim>\<open>k\<close> are listed as
  \<^verbatim>\<open>k[0]\<close>, \<^verbatim>\<open>k[1]\<close>. The code lists the elements of \<^verbatim>\<open>{items: ['a', 'b']}\<close> as
  \<^verbatim>\<open>items.0\<close> and \<^verbatim>\<open>items.1\<close>: what the \<^verbatim>\<open>forEach\<close> with the bracketed prefix computes
  is dropped, and the paths come from the branch for objects, which joins keys with dots.
\<close>

theorem keyify_array_elements_dotted:
  "keyify (Obj [(''items'', Arr [Str ''a'', Str ''b''])]) [] = Inr [''items.0'', ''items.1'']"
  by (simp add: show_nat.simps digit_char_def)

section \<open>The validator of the whole form\<close>

text \<open>
  C3: the claim says that every leaf path of the error tree that the global validator
  returns joins the set of invalid paths. With a validator that reports
  \<^verbatim>\<open>{other: 'bad'}\<close>, \<^verbatim>\<open>setFormValue('x', 1)\<close> writes the message at \<^verbatim>\<open>other\<close> in the error
  tree, but the set of invalid paths is empty afterwards and the form counts as valid: the
  loop adds \<^verbatim>\<open>path\<close>, the path being set, and not \<^verbatim>\<open>errorPath\<close>.
\<close>

theorem context_validator_marks_set_path_only:
  "map_sum id error_view
     (setFormValue checked_form ''x'' (Num 1) (FormProvider (Obj [(''x'', Num 0)])))
   = Inr (Obj [(''x'', Str []), (''other'', Str ''bad'')], [], True)"
  by (simp add: path_defs lodash_defs store_defs example_defs)

section \<open>Registration of validators\<close>

text \<open>
  C5: the claim says that a \<^verbatim>\<open>validate\<close> that is neither a function nor a list of
  functions is rejected when it is registered. \<^verbatim>\<open>subscribe\<close> with the string
  \<^verbatim>\<open>'notAFunction'\<close> or the number 5 returns normally and registers nothing; only an
  element of a list that is not a function throws.
\<close>

theorem subscribe_ignores_non_function:
  "map_sum id localValidators
     (subscribe plain_form ''x'' (Str ''notAFunction'') (FormProvider (Obj []))) = Inr [] \<and>
   map_sum id localValidators
     (subscribe plain_form ''x'' (Num 5) (FormProvider (Obj []))) = Inr [] \<and>
   subscribe plain_form ''x'' (Arr [Str ''notAFunction'']) (FormProvider (Obj []))
     = Inl (Error ''Path: x, has invalid validate function'')"
  by (simp add: path_defs lodash_defs store_defs example_defs)

section \<open>Validity and the set of invalid paths\<close>

text \<open>The flag that \<^verbatim>\<open>getFormValid\<close> returns agrees with the set of invalid paths when
  it is true exactly if the set is empty. \<open>registrations\<close> are the parts of the store
  that writing values, errors and dirty flags never touches.\<close>

definition validity_agrees :: "store \<Rightarrow> bool" where
  "validity_agrees s = (getFormValid s = (invalidPathSet s = []))"

definition registrations :: "store \<Rightarrow> jsval \<times> (string \<times> nat list) list \<times> nat list \<times> (string \<times> nat list) list \<times> jsval \<times> nat" where
  "registrations s =
     (initState s, localValidators s, forceUpdates s, forceUpdatesByPath s,
      formUniqueIds s, idCounter s)"

text \<open>The form of the specification's example: a password field with the validator
  \<^verbatim>\<open>v => v ? '' : 'required'\<close> registered for it.\<close>

definition password_store :: store where
  "password_store =
     (FormProvider (Obj [(''password'', Str ''secret'')]))
       \<lparr>localValidators := [(''password'', [0])]\<rparr>"

subsection \<open>What each operation leaves alone\<close>

lemma setFormError_keeps:
  "setFormError p v s = Inr s' \<Longrightarrow>
     registrations s' = registrations s \<and> formValue s' = formValue s \<and>
     formDirty s' = formDirty s \<and> invalidPathSet s' = invalidPathSet s \<and>
     formValid s' = formValid s \<and> rendered s' = rendered s"
  by (auto simp: setFormError_def registrations_def split: sum.splits)

lemma setFormDirty_keeps:
  "setFormDirty p v s = Inr s' \<Longrightarrow>
     registrations s' = registrations s \<and> formValue s' = formValue s \<and>
     formError s' = formError s \<and> invalidPathSet s' = invalidPathSet s \<and>
     formValid s' = formValid s \<and> rendered s' = rendered s"
  by (auto simp: setFormDirty_def registrations_def split: sum.splits)

lemma runLocalValidators_keeps:
  "runLocalValidators c p v s = Inr s' \<Longrightarrow>
     registrations s' = registrations s \<and> formValue s' = formValue s \<and>
     formDirty s' = formDirty s \<and> invalidPathSet s' = invalidPathSet s \<and>
     formValid s' = formValid s \<and> rendered s' = rendered s"
  by (auto simp: runLocalValidators_def split: sum.splits jsval.splits
      dest: setFormError_keeps)

lemma merge_errors_keeps:
  "merge_errors p eo ps s = Inr s' \<Longrightarrow>
     registrations s' = registrations s \<and> formValue s' = formValue s \<and>
     formDirty s' = formDirty s \<and> formValid s' = formValid s \<and> rendered s' = rendered s"
proof (induction ps arbitrary: s)
  case Nil
  then show ?case by simp
next
  case (Cons q ps)
  let ?s1 = "s\<lparr>invalidPathSet := set_add p (invalidPathSet s)\<rparr>"
  from Cons.prems obtain s2 where
    a: "setFormError q (lodash_get eo q Undefined) ?s1 = Inr s2" and
    b: "merge_errors p eo ps s2 = Inr s'"
    by (auto simp: Let_def split: sum.splits)
  from setFormError_keeps [OF a] Cons.IH [OF b] show ?case
    by (simp add: registrations_def)
qed

lemma runContextValidator_keeps:
  "runContextValidator pv p s = Inr s' \<Longrightarrow>
     registrations s' = registrations s \<and> formValue s' = formValue s \<and>
     formDirty s' = formDirty s \<and> formValid s' = formValid s \<and> rendered s' = rendered s"
  by (auto simp: runContextValidator_def Let_def split: option.splits sum.splits
      dest: merge_errors_keeps)

lemma updateValidity_keeps:
  "registrations (updateValidity p s) = registrations s \<and>
   formValue (updateValidity p s) = formValue s \<and>
   formDirty (updateValidity p s) = formDirty s \<and>
   formError (updateValidity p s) = formError s \<and>
   rendered (updateValidity p s) = rendered s @ forceUpdates s @ at_path (forceUpdatesByPath s) p"
  by (simp add: updateValidity_def Let_def force_def force_path_def registrations_def)

lemma updateValidity_agrees:
  "validity_agrees (updateValidity p s) \<and>
   (p \<in> set (invalidPathSet (updateValidity p s)))
     = truthy (lodash_get (formError (updateValidity p s)) p Undefined)"
  by (simp add: updateValidity_def Let_def force_def force_path_def validity_agrees_def
      getFormValid_def set_add_def set_delete_def)

lemma setFormValue_keeps:
  assumes "setFormValue pv p v s = Inr s'"
  shows "registrations s' = registrations s \<and> formDirty s' = formDirty s \<and>
         lodash_set (formValue s) p v = Inr (formValue s') \<and>
         rendered s' = rendered s @ forceUpdates s @ at_path (forceUpdatesByPath s) p"
proof -
  from assms obtain t s1 s2 where
    t: "lodash_set (formValue s) p v = Inr t" and
    s1: "runLocalValidators (call pv) p v (s\<lparr>formValue := t\<rparr>) = Inr s1" and
    s2: "runContextValidator pv p s1 = Inr s2" and
    s': "s' = updateValidity p s2"
    by (auto simp: setFormValue_def split: sum.splits)
  from runLocalValidators_keeps [OF s1] runContextValidator_keeps [OF s2]
       updateValidity_keeps [of p s2] t s'
  show ?thesis by (simp add: registrations_def)
qed

lemma setFormValue_agrees:
  assumes "setFormValue pv p v s = Inr s'"
  shows "validity_agrees s' \<and>
         (p \<in> set (invalidPathSet s')) = truthy (lodash_get (formError s') p Undefined)"
proof -
  from assms obtain s2 where "s' = updateValidity p s2"
    by (auto simp: setFormValue_def split: sum.splits)
  then show ?thesis using updateValidity_agrees [of p s2] by simp
qed

lemma dirty_each_keeps:
  "dirty_each b ps s = Inr s' \<Longrightarrow>
     registrations s' = registrations s \<and> formValue s' = formValue s \<and>
     formError s' = formError s \<and> invalidPathSet s' = invalidPathSet s \<and>
     formValid s' = formValid s"
proof (induction ps arbitrary: s)
  case Nil
  then show ?case by simp
next
  case (Cons q ps)
  from Cons.prems obtain s1 where
    a: "setFormDirty q (Bool b) s = Inr s1" and
    b: "dirty_each b ps (force_path q s1) = Inr s'"
    by (auto split: sum.splits)
  from setFormDirty_keeps [OF a] Cons.IH [OF b] show ?case
    by (simp add: registrations_def force_path_def force_def)
qed

lemma setAllFormDirty_keeps:
  "setAllFormDirty b s = Inr s' \<Longrightarrow>
     registrations s' = registrations s \<and> formValue s' = formValue s \<and>
     formError s' = formError s \<and> invalidPathSet s' = invalidPathSet s \<and>
     formValid s' = formValid s"
  by (auto simp: setAllFormDirty_def split: sum.splits dest: dirty_each_keeps)


lemma value_each_agrees:
  "value_each pv t ps s = Inr s' \<Longrightarrow> validity_agrees s \<Longrightarrow> validity_agrees s'"
proof (induction ps arbitrary: s)
  case Nil
  then show ?case by simp
next
  case (Cons q ps)
  from Cons.prems obtain s1 where
    a: "setFormValue pv q (lodash_get t q Undefined) s = Inr s1" and
    b: "value_each pv t ps s1 = Inr s'"
    by (auto split: sum.splits)
  from setFormValue_agrees [OF a] Cons.IH [OF b] show ?case by simp
qed

lemma validity_agrees_cong:
  "invalidPathSet s' = invalidPathSet s \<Longrightarrow> formValid s' = formValid s \<Longrightarrow>
   validity_agrees s' = validity_agrees s"
  by (simp add: validity_agrees_def getFormValid_def)

lemma initialize_agrees:
  assumes "initialize pv t r opts s = Inr s'" and "validity_agrees s"
  shows "validity_agrees s'"
proof -
  let ?s0 = "if r then s\<lparr>initState := cloneDeep t\<rparr> else s"
  have s0: "validity_agrees ?s0"
    using assms(2) by (simp add: validity_agrees_def getFormValid_def)
  from assms(1) obtain ps s1 where
    e: "value_each pv t ps ?s0 = Inr s1" and
    d: "s' = s1 \<or> setAllFormDirty False s1 = Inr s'"
    by (auto simp: initialize_def Let_def split: option.splits sum.splits if_splits)
  have s1: "validity_agrees s1" using value_each_agrees [OF e s0] .
  from d show ?thesis
  proof
    assume "s' = s1"
    then show ?thesis using s1 by simp
  next
    assume "setAllFormDirty False s1 = Inr s'"
    from setAllFormDirty_keeps [OF this] s1 show ?thesis
      by (simp add: validity_agrees_def getFormValid_def)
  qed
qed

lemma subscribe_agrees:
  assumes "subscribe pv p v s = Inr s'"
  shows "validity_agrees s'"
proof -
  from assms obtain c s1 s2 where
    a: "setFormValue pv p (getFormValues (s\<lparr>localValidators := c\<rparr>) p)
          (s\<lparr>localValidators := c\<rparr>) = Inr s1" and
    b: "setFormDirty p (getFormDirty s1 p) s1 = Inr s2" and
    c: "setFormError p (getFormError s2 p) s2 = Inr s'"
    by (auto simp: subscribe_def Let_def split: sum.splits)
  from setFormValue_agrees [OF a] setFormDirty_keeps [OF b] setFormError_keeps [OF c]
  show ?thesis by (simp add: validity_agrees_def getFormValid_def)
qed

lemma arrayPush_agrees:
  assumes "arrayPush pv p v s = Inr s'" and "validity_agrees s"
  shows "validity_agrees s'"
proof -
  from assms(1) obtain s1 where
    a: "s1 = s \<or> (\<exists>q w. setFormValue pv q w s = Inr s1)" and b: "s' = force_path p s1"
    by (auto simp: arrayPush_def Let_def split: sum.splits if_splits)
  from a have "validity_agrees s1" using assms(2) setFormValue_agrees by blast
  then show ?thesis using b
    by (simp add: validity_agrees_def getFormValid_def force_path_def force_def)
qed

lemma arrayRemove_agrees:
  assumes "arrayRemove p i s = Inr s'" and "validity_agrees s"
  shows "validity_agrees s'"
  using assms
  by (auto simp: arrayRemove_def Let_def validity_agrees_def getFormValid_def
      force_path_def force_def split: sum.splits if_splits)

lemma submit_agrees:
  assumes "submit s = Inr (res, s')" and "validity_agrees s"
  shows "validity_agrees s'"
proof -
  from assms(1) have "setAllFormDirty True s = Inr s'"
    by (auto simp: submit_def split: sum.splits)
  from setAllFormDirty_keeps [OF this] assms(2) show ?thesis
    by (simp add: validity_agrees_def getFormValid_def)
qed

text \<open>
  C1, as the code has it: the flag of \<^verbatim>\<open>getFormValid\<close> is true exactly when the set of
  invalid paths is empty, in the initial store and after every operation that returns
  (\<^verbatim>\<open>setFormValue\<close>, \<^verbatim>\<open>setFormDirty\<close>, \<^verbatim>\<open>setFormError\<close>, \<^verbatim>\<open>subscribe\<close> and its
  disposer, \<^verbatim>\<open>initialize\<close>, \<^verbatim>\<open>reset\<close>, \<^verbatim>\<open>submit\<close>, \<^verbatim>\<open>arrayPush\<close>,
  \<^verbatim>\<open>arrayRemove\<close>) from a store where it was so. Right after \<^verbatim>\<open>setFormValue(path, v)\<close>
  the path that was set is in the set exactly when the error tree holds a truthy value
  at it. Nothing is said about the other paths.
\<close>

theorem validity_flag_is_empty_set:
  assumes "validity_agrees s"
  shows "(setFormValue pv path v s = Inr s' \<longrightarrow>
            validity_agrees s' \<and>
            (path \<in> set (invalidPathSet s'))
              = truthy (lodash_get (formError s') path Undefined)) \<and>
         (setFormDirty path v s = Inr s' \<longrightarrow> validity_agrees s') \<and>
         (setFormError path v s = Inr s' \<longrightarrow> validity_agrees s') \<and>
         (subscribe pv path v s = Inr s' \<longrightarrow> validity_agrees s') \<and>
         (initialize pv t r opts s = Inr s' \<longrightarrow> validity_agrees s') \<and>
         (reset pv s = Inr s' \<longrightarrow> validity_agrees s') \<and>
         (submit s = Inr (res, s') \<longrightarrow> validity_agrees s') \<and>
         (arrayPush pv path v s = Inr s' \<longrightarrow> validity_agrees s') \<and>
         (arrayRemove path i s = Inr s' \<longrightarrow> validity_agrees s') \<and>
         validity_agrees (disposer path v s) \<and>
         validity_agrees (FormProvider initValue)"
proof (intro conjI impI)
  assume "setFormValue pv path v s = Inr s'"
  from setFormValue_agrees [OF this]
  show "validity_agrees s'"
    and "(path \<in> set (invalidPathSet s')) = truthy (lodash_get (formError s') path Undefined)"
    by simp_all
next
  assume "setFormDirty path v s = Inr s'"
  from setFormDirty_keeps [OF this] assms show "validity_agrees s'"
    by (simp add: validity_agrees_def getFormValid_def)
next
  assume "setFormError path v s = Inr s'"
  from setFormError_keeps [OF this] assms show "validity_agrees s'"
    by (simp add: validity_agrees_def getFormValid_def)
next
  assume "subscribe pv path v s = Inr s'"
  then show "validity_agrees s'" by (rule subscribe_agrees)
next
  assume "initialize pv t r opts s = Inr s'"
  then show "validity_agrees s'" using assms by (rule initialize_agrees)
next
  assume "reset pv s = Inr s'"
  then show "validity_agrees s'" using assms unfolding reset_def by (rule initialize_agrees)
next
  assume "submit s = Inr (res, s')"
  then show "validity_agrees s'" using assms by (rule submit_agrees)
next
  assume "arrayPush pv path v s = Inr s'"
  then show "validity_agrees s'" using assms by (rule arrayPush_agrees)
next
  assume "arrayRemove path i s = Inr s'"
  then show "validity_agrees s'" using assms by (rule arrayRemove_agrees)
next
  show "validity_agrees (disposer path v s)"
    using assms by (simp add: validity_agrees_def getFormValid_def disposer_def)
next
  show "validity_agrees (FormProvider initValue)"
    by (simp add: validity_agrees_def getFormValid_def FormProvider_def)
qed

text \<open>Witness for C1: clearing the password of the example form. The field joins the
  set of invalid paths and the form is invalid.\<close>

theorem validity_flag_is_empty_set_witness:
  "validity_agrees password_store \<and>
   \<not> isl (setFormValue plain_form ''password'' (Str []) password_store) \<and>
   validity_agrees (projr (setFormValue plain_form ''password'' (Str []) password_store)) \<and>
   ''password'' \<in> set (invalidPathSet
      (projr (setFormValue plain_form ''password'' (Str []) password_store))) \<and>
   \<not> getFormValid (projr (setFormValue plain_form ''password'' (Str []) password_store))"
  using validity_flag_is_empty_set [of password_store plain_form "''password''" "Str []"
      "projr (setFormValue plain_form ''password'' (Str []) password_store)"]
  by (simp add: password_store_def validity_agrees_def path_defs lodash_defs store_defs
      example_defs)

text \<open>
  Counterexample to C1 as stated: a list of two fields, each with the validator
  \<^verbatim>\<open>required\<close>, the first one empty. After \<^verbatim>\<open>arrayRemove('items', 0)\<close> the error tree
  holds the empty message at \<^verbatim>\<open>items[0]\<close>, the path \<^verbatim>\<open>items[0]\<close> is still in the set of
  invalid paths, and the form is still invalid: the error tree was shifted and the set was
  not.
\<close>

theorem invalid_path_set_not_shifted:
  "map_sum id (validity_at ''items[0]'')
     (and_then
        (and_then
           (subscribe plain_form ''items[0]'' (Fn 0)
              (FormProvider (Obj [(''items'', Arr [Str [], Str ''x''])])))
           (subscribe plain_form ''items[1]'' (Fn 0)))
        (arrayRemove ''items'' 0))
   = Inr (True, False, False)"
  by (simp add: path_defs lodash_defs store_defs example_defs)

section \<open>The disposer of subscribe\<close>

definition twice_registered :: store where
  "twice_registered =
     (FormProvider (Obj []))\<lparr>localValidators := [(''a'', [0, 1, 0]), (''b'', [0])]\<rparr>"

lemma map_of_put_list:
  "map_of (put_list k v kvs) q = (if q = k then Some v else map_of kvs q)"
  by (induction kvs) auto

lemma at_path_put_list:
  "at_path (put_list k v kvs) q = (if q = k then v else at_path kvs q)"
  by (simp add: at_path_def map_of_put_list)

lemma at_path_remove_fn:
  "at_path (remove_fn c p f) q =
     (if q = p then filter (\<lambda>g. Fn g \<noteq> f) (at_path c p) else at_path c q)"
  by (simp add: remove_fn_def at_path_put_list)

lemma map_of_remove_fn_other:
  "q \<noteq> p \<Longrightarrow> map_of (remove_fn c p f) q = map_of c q"
  by (simp add: remove_fn_def map_of_put_list)

lemma at_path_remove_each:
  "at_path (remove_each p fs c) q =
     (if q = p then filter (\<lambda>g. Fn g \<notin> set fs) (at_path c p) else at_path c q)"
proof (induction fs arbitrary: c)
  case Nil
  then show ?case by simp
next
  case (Cons f fs)
  show ?case
  proof (cases "f = Hole")
    case True
    then show ?thesis using Cons.IH [of c] by auto
  next
    case False
    then show ?thesis
      using Cons.IH [of "remove_fn c p f"]
      by (auto simp: at_path_remove_fn intro: filter_cong)
  qed
qed

lemma map_of_remove_each_other:
  "q \<noteq> p \<Longrightarrow> map_of (remove_each p fs c) q = map_of c q"
  by (induction fs arbitrary: c) (auto simp: map_of_remove_fn_other)

lemma at_path_push:
  "at_path (push c p f) q = (if q = p then at_path c p @ [f] else at_path c q)"
  by (simp add: push_def at_path_put_list)

lemma subscribe_registers:
  assumes "subscribe pv p v s = Inr s'"
  shows "register_validate p v (localValidators s) = Inr (localValidators s')"
proof -
  from assms obtain c s1 s2 where
    r: "register_validate p v (localValidators s) = Inr c" and
    a: "setFormValue pv p (getFormValues (s\<lparr>localValidators := c\<rparr>) p)
          (s\<lparr>localValidators := c\<rparr>) = Inr s1" and
    b: "setFormDirty p (getFormDirty s1 p) s1 = Inr s2" and
    c: "setFormError p (getFormError s2 p) s2 = Inr s'"
    by (auto simp: subscribe_def Let_def split: sum.splits)
  from setFormValue_keeps [OF a] setFormDirty_keeps [OF b] setFormError_keeps [OF c]
  have "localValidators s' = c" by (simp add: registrations_def)
  then show ?thesis using r by simp
qed

text \<open>
  C10: the function that \<^verbatim>\<open>subscribe\<close> returns filters the list of validators of
  its path by identity. For one validator function every occurrence is removed, however
  often the function was registered: after \<^verbatim>\<open>subscribe\<close> has appended the function to
  the list of its path, the disposer leaves no copy of it, neither the new one nor an
  older one. For a non-empty list of validators every occurrence of each listed function
  is removed and the others keep their order. When the validator is not in the list, the
  list is what it was. The lists of all other paths are the same afterwards and nothing
  else in the store changes; the disposer is a total function, so it cannot throw. (A path
  that had no entry reads as the empty list before and after: \<open>at_path\<close> is
  \<^verbatim>\<open>container[path] || []\<close>.)
\<close>

theorem disposer_removes_every_copy:
  "at_path (localValidators (disposer path (Fn f) s)) path
     = filter (\<lambda>g. g \<noteq> f) (at_path (localValidators s) path) \<and>
   (subscribe pv path (Fn f) s = Inr s1 \<longrightarrow>
      at_path (localValidators s1) path = at_path (localValidators s) path @ [f] \<and>
      at_path (localValidators (disposer path (Fn f) s1)) path
        = filter (\<lambda>g. g \<noteq> f) (at_path (localValidators s) path)) \<and>
   (fs \<noteq> [] \<longrightarrow>
      at_path (localValidators (disposer path (Arr fs) s)) path
        = filter (\<lambda>g. Fn g \<notin> set fs) (at_path (localValidators s) path)) \<and>
   (f \<notin> set (at_path (localValidators s) path) \<longrightarrow>
      at_path (localValidators (disposer path (Fn f) s)) path
        = at_path (localValidators s) path) \<and>
   (q \<noteq> path \<longrightarrow>
      map_of (localValidators (disposer path validate s)) q = map_of (localValidators s) q) \<and>
   disposer path validate s = s\<lparr>localValidators := localValidators (disposer path validate s)\<rparr>"
proof (intro conjI impI)
  show "at_path (localValidators (disposer path (Fn f) s)) path
     = filter (\<lambda>g. g \<noteq> f) (at_path (localValidators s) path)"
    by (simp add: disposer_def at_path_remove_fn)
next
  assume "subscribe pv path (Fn f) s = Inr s1"
  from subscribe_registers [OF this]
  have c: "localValidators s1 = push (localValidators s) path f"
    by (simp add: register_validate_def)
  show "at_path (localValidators s1) path = at_path (localValidators s) path @ [f]"
    by (simp add: c at_path_push)
  show "at_path (localValidators (disposer path (Fn f) s1)) path
        = filter (\<lambda>g. g \<noteq> f) (at_path (localValidators s) path)"
    by (simp add: disposer_def at_path_remove_fn c at_path_push)
next
  assume "fs \<noteq> []"
  then show "at_path (localValidators (disposer path (Arr fs) s)) path
        = filter (\<lambda>g. Fn g \<notin> set fs) (at_path (localValidators s) path)"
    by (simp add: disposer_def at_path_remove_each)
next
  assume "f \<notin> set (at_path (localValidators s) path)"
  then have "filter (\<lambda>g. g \<noteq> f) (at_path (localValidators s) path)
             = at_path (localValidators s) path"
    by (auto intro: filter_True)
  then show "at_path (localValidators (disposer path (Fn f) s)) path
        = at_path (localValidators s) path"
    by (simp add: disposer_def at_path_remove_fn)
next
  assume "q \<noteq> path"
  then show "map_of (localValidators (disposer path validate s)) q = map_of (localValidators s) q"
    by (cases validate)
       (simp_all add: disposer_def map_of_remove_fn_other map_of_remove_each_other)
next
  show "disposer path validate s = s\<lparr>localValidators := localValidators (disposer path validate s)\<rparr>"
    by (simp add: disposer_def)
qed

text \<open>Witness for C10: the same function registered twice for \<^verbatim>\<open>a\<close>, between
  them another one, and once for \<^verbatim>\<open>b\<close>; then registered a third time and disposed
  of once.\<close>

theorem disposer_removes_every_copy_witness:
  "at_path (localValidators (disposer ''a'' (Fn 0) twice_registered)) ''a'' = [1] \<and>
   at_path (localValidators (disposer ''a'' (Arr [Fn 0, Fn 1]) twice_registered)) ''a'' = [] \<and>
   at_path (localValidators (disposer ''a'' (Fn 2) twice_registered)) ''a'' = [0, 1, 0] \<and>
   map_of (localValidators (disposer ''a'' (Fn 0) twice_registered)) ''b'' = Some [0] \<and>
   \<not> isl (subscribe plain_form ''a'' (Fn 0) twice_registered) \<and>
   at_path (localValidators (disposer ''a'' (Fn 0)
      (projr (subscribe plain_form ''a'' (Fn 0) twice_registered)))) ''a'' = [1]"
  using disposer_removes_every_copy [where path = "''a''" and f = 0 and s = twice_registered
          and fs = "[Fn 0, Fn 1]" and q = "''b''" and validate = "Fn 0" and pv = plain_form
          and ?s1.0 = "projr (subscribe plain_form ''a'' (Fn 0) twice_registered)"]
        disposer_removes_every_copy [where path = "''a''" and f = 2 and s = twice_registered
          and fs = "[Fn 0, Fn 1]" and q = "''b''" and validate = "Fn 0"]
  by (simp add: twice_registered_def path_defs lodash_defs store_defs example_defs)

section \<open>Reading a value after writing it\<close>

text \<open>An array or an object: what a key can be written into.\<close>

fun is_tree :: "jsval \<Rightarrow> bool" where
  "is_tree (Arr xs) = True"
| "is_tree (Obj kvs) = True"
| "is_tree v = False"

text \<open>The keys at which \<^verbatim>\<open>baseSet\<close> stops.\<close>

definition unsafe_key :: "string \<Rightarrow> bool" where
  "unsafe_key k = (k = ''__proto__'' \<or> k = ''constructor'' \<or> k = ''prototype'')"

subsection \<open>Own and inherited properties\<close>

text \<open>What \<^verbatim>\<open>get\<close> reads where no own property is: the function \<^verbatim>\<open>toString\<close> that an
  object inherits, the name of a function, the length of an array, and the prototype of
  an array.\<close>

lemma inherited_reads:
  "lodash_get (Obj []) ''toString'' d = built_in ''Object'' ''toString''"
  "lodash_get (Obj [(''f'', Fn n)]) ''f.name'' d = Str (function_name n)"
  "lodash_get (Arr [Num 1]) ''length'' d = Num 1"
  "lodash_get (Arr []) ''__proto__'' d = Arr []"
  by (simp_all add: built_in_def path_defs lodash_defs)

lemma built_in_not_tree: "\<not> is_tree (built_in owner name)"
  by (simp add: built_in_def)

lemma inherited_from_not_tree: "\<not> is_tree (inherited_from chain k)"
  by (induction chain k rule: inherited_from.induct) (auto simp: built_in_not_tree)

lemma inherited_not_tree: "k \<noteq> ''__proto__'' \<Longrightarrow> \<not> is_tree (inherited t k)"
  by (simp add: inherited_def inherited_from_not_tree)

lemma get_prop_own: "own_prop t k = Some v \<Longrightarrow> get_prop t k = v"
  by (simp add: get_prop_def)

lemma get_prop_tree:
  assumes "is_tree (get_prop t k)" and "\<not> unsafe_key k"
  shows "is_tree t \<and> own_prop t k = Some (get_prop t k)"
proof (cases "own_prop t k")
  case None
  with assms inherited_not_tree [of k t] show ?thesis
    by (simp add: get_prop_def unsafe_key_def)
next
  case (Some v)
  with assms(1) have v: "is_tree v" "get_prop t k = v" by (simp_all add: get_prop_def)
  have "is_tree t"
  proof (cases t)
    case (Str s)
    with Some v(1) show ?thesis by (auto split: option.splits if_splits)
  next
    case (Fn f)
    with Some v(1) assms(2) show ?thesis by (auto simp: unsafe_key_def split: if_splits)
  qed (use Some in simp_all)
  with Some v show ?thesis by simp
qed

lemma prototypes_not_special:
  "list_all (list_all (\<lambda>c. \<not> is_special c)) object_prototype"
  "list_all (list_all (\<lambda>c. \<not> is_special c)) function_prototype"
  "list_all (list_all (\<lambda>c. \<not> is_special c)) array_prototype"
  "list_all (list_all (\<lambda>c. \<not> is_special c)) string_prototype"
  "list_all (list_all (\<lambda>c. \<not> is_special c)) number_prototype"
  "list_all (list_all (\<lambda>c. \<not> is_special c)) boolean_prototype"
  by (simp_all add: object_prototype_def function_prototype_def array_prototype_def
        string_prototype_def number_prototype_def boolean_prototype_def is_special_def)

lemma names_not_special:
  "k \<in> set (concat (map snd (prototype_chain t))) \<Longrightarrow> c \<in> set k \<Longrightarrow> \<not> is_special c"
  using prototypes_not_special by (cases t) (auto simp: list_all_iff)

subsection \<open>Reading what was written\<close>

lemma map_of_alist_put:
  "map_of (alist_put k v kvs) q = (if q = k then Some v else map_of kvs q)"
  by (induction kvs) auto

lemma keys_alist_put: "fst ` set (alist_put k v kvs) = insert k (fst ` set kvs)"
  by (induction kvs) force+

lemma assignValue_tree: "assignValue t k v = Inr t' \<Longrightarrow> is_tree t \<and> is_tree t'"
  by (cases t) (auto split: option.splits)

lemma is_tree_simps:
  "is_tree t \<Longrightarrow> t \<noteq> Null \<and> t \<noteq> Undefined \<and> t \<noteq> Hole \<and> isObject t \<and> \<not> isFunction t"
  by (cases t) auto

lemma assignValue_own:
  assumes "assignValue t k v = Inr t'" and "v \<noteq> Hole"
  shows "own_prop t' k = Some v"
proof (cases t)
  case (Obj kvs)
  then show ?thesis using assms by (auto simp: map_of_alist_put)
next
  case (Arr xs)
  then obtain i where i: "array_index k = Some i"
    and t': "t' = Arr (if i < length xs then xs[i := v]
                      else xs @ replicate (i - length xs) Hole @ [v])"
    using assms by (auto split: option.splits)
  show ?thesis
  proof (cases "i < length xs")
    case True
    then show ?thesis using i t' assms(2) by simp
  next
    case False
    then have "(xs @ replicate (i - length xs) Hole @ [v]) ! i = v"
      by (simp add: nth_append)
    then show ?thesis using i t' False assms(2) by simp
  qed
qed (use assms in auto)

lemma assignValue_read:
  "assignValue t k v = Inr t' \<Longrightarrow> v \<noteq> Hole \<Longrightarrow> get_prop t' k = v"
  by (simp add: assignValue_own get_prop_own)

lemma baseSet_loop_unsafe: "unsafe_key k \<Longrightarrow> baseSet_loop t (k # ks) v = Inr t"
  by (auto simp: unsafe_key_def)


lemma baseSet_loop_top:
  "baseSet_loop t (k # ks) v = Inr t' \<Longrightarrow> \<not> unsafe_key k \<Longrightarrow>
     \<exists>c. assignValue t k c = Inr t'"
  by (auto simp: Let_def unsafe_key_def split: if_splits sum.splits)

lemma baseSet_loop_tree:
  "baseSet_loop t ks v = Inr t' \<Longrightarrow> ks \<noteq> [] \<Longrightarrow> \<not> unsafe_key (hd ks) \<Longrightarrow>
     is_tree t \<and> is_tree t'"
proof -
  assume a: "baseSet_loop t ks v = Inr t'" "ks \<noteq> []" "\<not> unsafe_key (hd ks)"
  then obtain k r where "ks = k # r" by (cases ks) auto
  with a baseSet_loop_top [of t k r v t'] obtain c where "assignValue t k c = Inr t'"
    by auto
  then show ?thesis by (rule assignValue_tree)
qed

lemma baseSet_loop_step:
  assumes "baseSet_loop t (k # ks) v = Inr t'" and "\<not> unsafe_key k" and "ks \<noteq> []"
  shows "\<exists>child. baseSet_loop (if isObject (get_prop t k) then get_prop t k
                               else if isIndex (hd ks) then Arr [] else Obj []) ks v
                  = Inr child \<and> assignValue t k child = Inr t'"
  using assms by (auto simp: Let_def unsafe_key_def split: if_splits sum.splits)

lemma baseSet_loop_read:
  "baseSet_loop t ks v = Inr t' \<Longrightarrow> ks \<noteq> [] \<Longrightarrow> v \<noteq> Hole \<Longrightarrow>
     list_all (\<lambda>k. \<not> unsafe_key k) ks \<Longrightarrow> baseGet_loop t' ks = v"
proof (induction ks arbitrary: t t')
  case Nil
  then show ?case by simp
next
  case (Cons k ks)
  from Cons.prems(4) have nk: "\<not> unsafe_key k" and rest: "list_all (\<lambda>k. \<not> unsafe_key k) ks"
    by simp_all
  show ?case
  proof (cases "ks = []")
    case True
    with Cons.prems nk have a: "assignValue t k v = Inr t'"
      by (auto simp: unsafe_key_def split: if_splits)
    from assignValue_tree [OF a] assignValue_read [OF a Cons.prems(3)] True
    show ?thesis by (auto dest: is_tree_simps)
  next
    case False
    let ?n = "if isObject (get_prop t k) then get_prop t k
              else if isIndex (hd ks) then Arr [] else Obj []"
    from baseSet_loop_step [OF Cons.prems(1) nk False] obtain child where
      c: "baseSet_loop ?n ks v = Inr child" and a: "assignValue t k child = Inr t'"
      by auto
    from rest False have "\<not> unsafe_key (hd ks)" by (cases ks) auto
    from baseSet_loop_tree [OF c False this] have ct: "is_tree child" by simp
    then have "child \<noteq> Hole" by (auto dest: is_tree_simps)
    from assignValue_read [OF a this] have r: "get_prop t' k = child" .
    from Cons.IH [OF c False Cons.prems(3) rest] have "baseGet_loop child ks = v" .
    with r assignValue_tree [OF a] show ?thesis by (auto dest: is_tree_simps)
  qed
qed

subsection \<open>The keys of a deep path are shorter than the path\<close>

lemma length_unescape: "length (unescape b) \<le> length b"
  by (induction b rule: unescape.induct) auto

lemma quoted_body_length:
  "quoted_body q cs = Some (b, r) \<Longrightarrow> length b + length r < length cs"
  by (induction q cs arbitrary: b r rule: quoted_body.induct)
     (fastforce split: if_splits option.splits)+

lemma bracket_quoted_length: "bracket_quoted cs = Some (t, r) \<Longrightarrow> length t \<le> length cs"
proof -
  assume a: "bracket_quoted cs = Some (t, r)"
  then obtain q rest b r' where cs: "cs = q # rest" and
    qb: "quoted_body q rest = Some (b, r')" and t: "t = unescape b"
    by (auto simp: bracket_quoted_def split: list.splits if_splits option.splits)
  from quoted_body_length [OF qb] length_unescape [of b] cs t show ?thesis by simp
qed

lemma bracket_number_length: "bracket_number cs = Some (t, r) \<Longrightarrow> length t \<le> length cs"
proof -
  assume a: "bracket_number cs = Some (t, r)"
  define sgn where "sgn = (if cs \<noteq> [] \<and> hd cs = CHR ''-'' then ''-'' else '''')"
  define r1 where "r1 = drop (length sgn) cs"
  have l0: "length sgn + length r1 = length cs"
    by (cases cs) (auto simp: r1_def sgn_def)
  have l1: "length (takeWhile is_digit r1) + length (dropWhile is_digit r1) = length r1"
    by (metis length_append takeWhile_dropWhile_id)
  obtain c r3 where r2: "dropWhile is_digit r1 = c # r3"
    using a unfolding bracket_number_def Let_def sgn_def [symmetric] r1_def [symmetric]
    by (auto split: if_splits list.splits)
  have l2: "length (takeWhile is_digit r3) \<le> length r3" by (rule length_takeWhile_le)
  have "t = sgn @ takeWhile is_digit r1 \<or>
        t = sgn @ takeWhile is_digit r1 @ ''.'' @ takeWhile is_digit r3"
    using a r2 unfolding bracket_number_def Let_def sgn_def [symmetric] r1_def [symmetric]
    by (auto split: if_splits)
  then show ?thesis using l0 l1 l2 r2 by auto
qed

lemma bracket_token_length: "bracket_token cs = Some (t, r) \<Longrightarrow> length t \<le> length cs"
  unfolding bracket_token_def
  by (auto split: option.splits dest: bracket_number_length bracket_quoted_length)

lemma length_takeWhile_less:
  "\<exists>x\<in>set xs. \<not> P x \<Longrightarrow> length (takeWhile P xs) < length xs"
  by (induction xs) auto

lemma scan_path_key_length:
  "k \<in> set (scan_path cs) \<Longrightarrow>
     length k \<le> length cs \<and> ((\<exists>c\<in>set cs. is_special c) \<longrightarrow> length k < length cs)"
proof (induction cs arbitrary: k rule: scan_path.induct)
  case 1
  then show ?case by simp
next
  case (2 c cs)
  show ?case
  proof (cases "is_special c")
    case False
    let ?N = "\<lambda>x. \<not> is_special x"
    from "2.prems" False consider
      (head) "k = c # takeWhile ?N cs" | (rest) "k \<in> set (scan_path (dropWhile ?N cs))"
      by auto
    then show ?thesis
    proof cases
      case head
      have "length (takeWhile ?N cs) \<le> length cs" by (rule length_takeWhile_le)
      moreover have "(\<exists>x\<in>set cs. is_special x) \<Longrightarrow> length (takeWhile ?N cs) < length cs"
        using length_takeWhile_less [of cs ?N] by simp
      ultimately show ?thesis using head False by auto
    next
      case rest
      from "2.IH" False rest have "length k \<le> length (dropWhile ?N cs)" by blast
      moreover have "length (dropWhile ?N cs) \<le> length cs" by (rule length_dropWhile_le)
      ultimately show ?thesis by simp
    qed
  next
    case True
    note sp = True
    show ?thesis
    proof (cases "c = CHR ''[''")
      case True
      show ?thesis
      proof (cases "bracket_token cs")
        case None
        with "2.prems" sp True have "k = [] \<or> k \<in> set (scan_path cs)"
          by (auto split: if_splits)
        moreover have "k \<in> set (scan_path cs) \<Longrightarrow> length k \<le> length cs"
          using "2.IH" sp True None by (cases "separator_ahead (c # cs)") blast+
        ultimately show ?thesis by auto
      next
        case (Some a)
        obtain tok rest where a: "a = (tok, rest)" by (cases a)
        with "2.prems" sp True Some have "k = tok \<or> k \<in> set (scan_path rest)" by auto
        moreover have "length tok \<le> length cs"
          using Some a by (auto dest: bracket_token_length)
        moreover have "length rest < length cs"
          using Some a by (auto dest: bracket_token_rest)
        moreover have "k \<in> set (scan_path rest) \<Longrightarrow> length k \<le> length rest"
          using "2.IH" sp True Some a by blast
        ultimately show ?thesis by auto
      qed
    next
      case False
      with "2.prems" sp have "k = [] \<or> k \<in> set (scan_path cs)"
        by (auto split: if_splits)
      moreover have "k \<in> set (scan_path cs) \<Longrightarrow> length k \<le> length cs"
        using "2.IH" sp False by (cases "separator_ahead (c # cs)") blast+
      ultimately show ?thesis by auto
    qed
  qed
qed

lemma deep_has_special: "reIsDeepProp_test p \<Longrightarrow> \<exists>c\<in>set p. is_special c"
  unfolding reIsDeepProp_test_def is_special_def
  by (auto dest: set_dropWhileD)

lemma deep_key_differs:
  assumes "reIsDeepProp_test p" and "k \<in> set (stringToPath p)"
  shows "k \<noteq> p"
proof -
  from assms(1) have sp: "\<exists>c\<in>set p. is_special c" by (rule deep_has_special)
  then have ne: "p \<noteq> []" by auto
  from assms(2) have "k = [] \<or> k \<in> set (scan_path p)"
    by (auto simp: stringToPath_def split: if_splits)
  then show ?thesis
  proof
    assume "k = []"
    then show ?thesis using ne by simp
  next
    assume "k \<in> set (scan_path p)"
    from scan_path_key_length [OF this] sp show ?thesis by auto
  qed
qed


subsection \<open>The keys of a path are the same after the write\<close>

lemma uint_digits: "reIsUint_test s \<Longrightarrow> list_all is_digit s"
  by (cases s) (auto simp: reIsUint_test_def is_digit_def split: if_splits)

lemma special_not_digit: "is_special c \<Longrightarrow> \<not> is_digit c"
  by (auto simp: is_special_def is_digit_def)

lemma deep_not_index:
  assumes "reIsDeepProp_test p"
  shows "array_index p = None \<and> p \<noteq> ''length''"
proof -
  from deep_has_special [OF assms] obtain c where c: "c \<in> set p" "is_special c" by auto
  then have "\<not> list_all is_digit p" by (auto simp: list_all_iff dest: special_not_digit)
  then have "\<not> reIsUint_test p" by (auto dest: uint_digits)
  moreover have "p \<noteq> ''length''" using c by (auto simp: is_special_def)
  ultimately show ?thesis by (simp add: array_index_def)
qed

lemma deep_has_property:
  assumes "reIsDeepProp_test p"
  shows "has_property t p = (own_prop t p \<noteq> None)"
proof -
  from deep_has_special [OF assms] obtain c where "c \<in> set p" "is_special c" by auto
  with names_not_special [of p t c] show ?thesis by (auto simp: has_property_def)
qed

lemma castPath_stable:
  assumes "lodash_set t p v = Inr t'" and "isObject t"
  shows "castPath p t' = castPath p t"
proof -
  from assms have b: "baseSet_loop t (castPath p t) v = Inr t'" by (simp add: lodash_set_def)
  show ?thesis
  proof (cases "reIsPlainProp_test p \<or> \<not> reIsDeepProp_test p")
    case True
    then show ?thesis by (auto simp: castPath_def isKey_def)
  next
    case False
    then have deep: "reIsDeepProp_test p" and np: "\<not> reIsPlainProp_test p" by auto
    note hp = deep_has_property [OF deep]
    show ?thesis
    proof (cases "castPath p t")
      case Nil
      with b show ?thesis by simp
    next
      case (Cons k ks)
      with b have bk: "baseSet_loop t (k # ks) v = Inr t'" by simp
      show ?thesis
      proof (cases "unsafe_key k")
        case True
        with bk have "t' = t" by (auto simp: unsafe_key_def)
        then show ?thesis by simp
      next
        case False
        from baseSet_loop_top [OF bk False] obtain c where a: "assignValue t k c = Inr t'" ..
        show ?thesis
        proof (cases t)
          case (Arr xs)
          with a obtain ys where "t' = Arr ys" by (auto split: option.splits)
          with Arr deep_not_index [OF deep] show ?thesis
            by (simp add: castPath_def isKey_def hp)
        next
          case (Obj kvs)
          with a have t': "t' = Obj (alist_put k c kvs)" by simp
          show ?thesis
          proof (cases "map_of kvs p")
            case (Some w)
            with Obj np deep have "castPath p t = [p]"
              by (simp add: castPath_def isKey_def hp)
            with Cons have "k = p" by simp
            with t' Some Obj show ?thesis
              by (simp add: castPath_def isKey_def hp map_of_alist_put)
          next
            case None
            with Obj np deep have "castPath p t = stringToPath p"
              by (simp add: castPath_def isKey_def hp)
            with Cons have "k \<in> set (stringToPath p)" by simp
            from deep_key_differs [OF deep this] have "k \<noteq> p" .
            with t' None Obj np deep show ?thesis
              by (simp add: castPath_def isKey_def hp map_of_alist_put)
          qed
        qed (use a in auto)
      qed
    qed
  qed
qed

subsection \<open>Paths that are written as they are read\<close>

text \<open>
  The walk of \<^verbatim>\<open>baseSet\<close> along the keys of a path is plain when no key is one of those
  at which it stops, no step is taken on a function (one that is stored in the tree, or an
  inherited one as for \<^verbatim>\<open>toString.x\<close>), and a key used on an array is an array index.
  A function keeps what is written on it outside the tree of values, \<^verbatim>\<open>name\<close> and
  \<^verbatim>\<open>length\<close> of a function cannot be written at all, and \<^verbatim>\<open>length\<close> of an array is
  not a place of its own.
\<close>

fun plain_walk :: "jsval \<Rightarrow> string list \<Rightarrow> bool" where
  "plain_walk nested [] = True"
| "plain_walk nested (k # ks) =
     (\<not> unsafe_key k \<and> \<not> isFunction nested \<and> (isArray nested \<longrightarrow> array_index k \<noteq> None) \<and>
      (ks = [] \<or>
       plain_walk (if isObject (get_prop nested k) then get_prop nested k
                   else if isIndex (hd ks) then Arr [] else Obj []) ks))"

lemma plain_walk_safe: "plain_walk t ks \<Longrightarrow> list_all (\<lambda>k. \<not> unsafe_key k) ks"
  by (induction t ks rule: plain_walk.induct) auto

lemma isObject_cases: "isObject t \<Longrightarrow> \<not> isFunction t \<Longrightarrow> is_tree t"
  by (cases t) auto

lemma assignValue_plain:
  "is_tree t \<Longrightarrow> (isArray t \<longrightarrow> array_index k \<noteq> None) \<Longrightarrow> \<exists>t'. assignValue t k c = Inr t'"
  by (cases t) auto

lemma plain_walk_returns:
  "plain_walk t ks \<Longrightarrow> isObject t \<Longrightarrow> \<exists>t'. baseSet_loop t ks v = Inr t'"
proof (induction ks arbitrary: t)
  case Nil
  then show ?case by simp
next
  case (Cons k ks)
  from Cons.prems have nk: "\<not> unsafe_key k" and tt: "is_tree t"
    and ix: "isArray t \<longrightarrow> array_index k \<noteq> None"
    by (auto intro: isObject_cases)
  show ?case
  proof (cases "ks = []")
    case True
    with nk assignValue_plain [OF tt ix, of v] show ?thesis by (simp add: unsafe_key_def)
  next
    case False
    let ?n = "if isObject (get_prop t k) then get_prop t k
              else if isIndex (hd ks) then Arr [] else Obj []"
    from Cons.prems(1) False have w: "plain_walk ?n ks" by simp
    have "isObject ?n" by simp
    from Cons.IH [OF w this] obtain child where c: "baseSet_loop ?n ks v = Inr child" ..
    from assignValue_plain [OF tt ix, of child] obtain t' where
      "assignValue t k child = Inr t'" ..
    with c nk False show ?thesis by (simp add: unsafe_key_def Let_def)
  qed
qed

text \<open>
  C8, as the code has it: after \<^verbatim>\<open>setFormValue(path, v)\<close> has returned,
  \<^verbatim>\<open>getFormValues(path)\<close> is \<open>v\<close>, for a path that is not the empty string, in which
  lodash finds at least one key and along which the walk is plain, a value other than
  \<^verbatim>\<open>undefined\<close>, and a tree of values that is an object or an array. On such a path the
  write itself always returns, so the call returns unless validation throws. (\<open>Hole\<close> is
  the mark of an unassigned index and not a value that can be passed.)
\<close>

theorem value_read_after_write:
  assumes "path \<noteq> []" and "castPath path (formValue s) \<noteq> []"
    and "plain_walk (formValue s) (castPath path (formValue s))"
    and "v \<noteq> Undefined" and "v \<noteq> Hole"
    and "isObject (formValue s)"
  shows "(\<exists>t. lodash_set (formValue s) path v = Inr t) \<and>
         (setFormValue pv path v s = Inr s' \<longrightarrow> getFormValues s' path = v)"
proof (intro conjI impI)
  let ?t = "formValue s" and ?t' = "formValue s'"
  from plain_walk_returns [OF assms(3,6)] assms(6)
  show "\<exists>t. lodash_set ?t path v = Inr t" by (simp add: lodash_set_def)
  assume r: "setFormValue pv path v s = Inr s'"
  from setFormValue_keeps [OF r] have w: "lodash_set ?t path v = Inr ?t'" by simp
  with assms(6) have b: "baseSet_loop ?t (castPath path ?t) v = Inr ?t'"
    by (simp add: lodash_set_def)
  from baseSet_loop_read [OF b assms(2) assms(5) plain_walk_safe [OF assms(3)]]
  have r: "baseGet_loop ?t' (castPath path ?t) = v" .
  from assms(2,3) have "\<not> unsafe_key (hd (castPath path ?t))"
    by (cases "castPath path ?t") auto
  from baseSet_loop_tree [OF b assms(2) this] have "is_tree ?t'" by simp
  then have n: "?t' \<noteq> Null \<and> ?t' \<noteq> Undefined" by (auto dest: is_tree_simps)
  from castPath_stable [OF w assms(6)] have c: "castPath path ?t' = castPath path ?t" .
  show "getFormValues s' path = v"
    using r n c assms(1,2,4)
    by (simp add: getFormValues_def lodash_get_def baseGet_def)
qed

text \<open>Witness for C8: a nested path written into the empty form.\<close>

theorem value_read_after_write_witness:
  "plain_walk (Obj []) [''users'', ''0'', ''name''] \<and>
   \<not> isl (setFormValue plain_form ''users[0].name'' (Str ''Ann'') (FormProvider (Obj []))) \<and>
   getFormValues
     (projr (setFormValue plain_form ''users[0].name'' (Str ''Ann'') (FormProvider (Obj []))))
     ''users[0].name'' = Str ''Ann''"
  using value_read_after_write [of "''users[0].name''" "FormProvider (Obj [])" "Str ''Ann''"
      plain_form
      "projr (setFormValue plain_form ''users[0].name'' (Str ''Ann'') (FormProvider (Obj [])))"]
  by (simp add: unsafe_key_def path_defs lodash_defs store_defs example_defs)

text \<open>
  Counterexample to C8 as stated: after \<^verbatim>\<open>setFormValue('x', undefined)\<close> the read
  returns the default \<^verbatim>\<open>''\<close>; after \<^verbatim>\<open>setFormValue('', 5)\<close> the read of the empty path
  returns the whole tree; \<^verbatim>\<open>'[.]'\<close> is a path without a key, where nothing is written
  and the read returns the default; \<^verbatim>\<open>setFormValue('prototype', 5)\<close> writes nothing
  either; and after \<^verbatim>\<open>setFormValue('a.constructor', 5)\<close> the read returns the function
  \<^verbatim>\<open>Object\<close>, which the new object at \<^verbatim>\<open>a\<close> inherits.
\<close>

theorem value_read_differs_from_write:
  "map_sum id (value_at ''x'')
     (setFormValue plain_form ''x'' Undefined (FormProvider (Obj []))) = Inr (Str []) \<and>
   map_sum id (value_at [])
     (setFormValue plain_form [] (Num 5) (FormProvider (Obj []))) = Inr (Obj [([], Num 5)]) \<and>
   map_sum id (value_at ''[.]'')
     (setFormValue plain_form ''[.]'' (Num 5) (FormProvider (Obj []))) = Inr (Str []) \<and>
   map_sum id (value_at ''prototype'')
     (setFormValue plain_form ''prototype'' (Num 5) (FormProvider (Obj []))) = Inr (Str []) \<and>
   map_sum id (value_at ''a.constructor'')
     (setFormValue plain_form ''a.constructor'' (Num 5) (FormProvider (Obj [])))
     = Inr (built_in ''Object'' ''constructor'')"
  by (simp add: built_in_def path_defs lodash_defs store_defs example_defs)

section \<open>Arrays in the trees\<close>

subsection \<open>The text of an index is read back as the index\<close>

lemma digit_char_cases:
  "d < 10 \<Longrightarrow> d = 0 \<or> d = 1 \<or> d = 2 \<or> d = 3 \<or> d = 4 \<or> d = 5 \<or> d = 6 \<or> d = 7 \<or> d = 8
     \<or> d = (9::nat)"
  by arith

lemma digit_val_digit_char: "d < 10 \<Longrightarrow> digit_val (digit_char d) = d"
  by (drule digit_char_cases) (auto simp: digit_val_def digit_char_def)

lemma is_digit_digit_char: "d < 10 \<Longrightarrow> is_digit (digit_char d)"
  by (drule digit_char_cases) (auto simp: is_digit_def digit_char_def)

lemma digit_char_zero: "d < 10 \<Longrightarrow> (digit_char d = CHR ''0'') = (d = 0)"
  by (drule digit_char_cases) (auto simp: digit_char_def)

lemma show_nat_not_empty: "show_nat n \<noteq> []"
  by (subst show_nat.simps) simp

lemma show_nat_digits: "list_all is_digit (show_nat n)"
  by (induction n rule: show_nat.induct)
     (subst show_nat.simps, simp add: is_digit_digit_char)

lemma read_nat_snoc: "read_nat (s @ [c]) = 10 * read_nat s + digit_val c"
  by (simp add: read_nat_def)

lemma read_nat_show_nat: "read_nat (show_nat n) = n"
proof (induction n rule: show_nat.induct)
  case (1 n)
  show ?case
  proof (cases "n < 10")
    case True
    then show ?thesis
      by (subst show_nat.simps) (simp add: read_nat_def digit_val_digit_char)
  next
    case False
    with 1 have "read_nat (show_nat (n div 10)) = n div 10" by simp
    with False show ?thesis
      by (subst show_nat.simps) (simp add: read_nat_snoc digit_val_digit_char)
  qed
qed

lemma hd_show_nat: "0 < n \<Longrightarrow> hd (show_nat n) \<noteq> CHR ''0''"
proof (induction n rule: show_nat.induct)
  case (1 n)
  show ?case
  proof (cases "n < 10")
    case True
    with "1.prems" show ?thesis
      by (subst show_nat.simps) (simp add: digit_char_zero)
  next
    case False
    then have "0 < n div 10" by simp
    with 1 False have "hd (show_nat (n div 10)) \<noteq> CHR ''0''" by simp
    with False show ?thesis
      by (subst show_nat.simps) (simp add: show_nat_not_empty)
  qed
qed

lemma reIsUint_show_nat: "reIsUint_test (show_nat n)"
proof (cases "n = 0")
  case True
  then show ?thesis
    by (subst show_nat.simps) (simp add: reIsUint_test_def digit_char_def)
next
  case False
  then have h: "hd (show_nat n) \<noteq> CHR ''0''" by (simp add: hd_show_nat)
  obtain c cs where s: "show_nat n = c # cs"
    using show_nat_not_empty [of n] by (cases "show_nat n") auto
  with h show_nat_digits [of n] show ?thesis by (simp add: reIsUint_test_def)
qed

lemma array_index_show_nat: "n < 4294967295 \<Longrightarrow> array_index (show_nat n) = Some n"
  by (simp add: array_index_def reIsUint_show_nat read_nat_show_nat)

subsection \<open>Changing an array where a path leads\<close>

text \<open>A path without the keys \<^verbatim>\<open>__proto__\<close>, \<^verbatim>\<open>constructor\<close> and \<^verbatim>\<open>prototype\<close>
  that leads to an array leads there through own properties of arrays and objects.\<close>

abbreviation safe_keys :: "string list \<Rightarrow> bool" where
  "safe_keys ks \<equiv> list_all (\<lambda>k. \<not> unsafe_key k) ks"

lemma show_nat_safe: "\<not> unsafe_key (show_nat n)"
  using show_nat_digits [of n] by (auto simp: unsafe_key_def is_digit_def)

lemma baseGet_loop_not_tree:
  "\<not> is_tree t \<Longrightarrow> safe_keys ks \<Longrightarrow> \<not> is_tree (baseGet_loop t ks)"
proof (induction ks arbitrary: t)
  case Nil
  then show ?case by simp
next
  case (Cons k ks)
  have "\<not> is_tree (get_prop t k)"
    using Cons.prems get_prop_tree [of t k] by auto
  from Cons.IH [OF this] Cons.prems(2) show ?case by simp
qed

lemma baseGet_loop_tree:
  "baseGet_loop t ks = Arr ys \<Longrightarrow> safe_keys ks \<Longrightarrow> is_tree t"
  using baseGet_loop_not_tree [of t ks] by auto

lemma own_prop_tree_cases:
  "own_prop t k = Some v \<Longrightarrow> is_tree v \<Longrightarrow> is_tree t \<Longrightarrow>
     (\<exists>kvs. t = Obj kvs \<and> map_of kvs k = Some v) \<or>
     (\<exists>xs i. t = Arr xs \<and> array_index k = Some i \<and> i < length xs \<and> xs ! i \<noteq> Hole \<and>
              xs ! i = v)"
  by (cases t) (auto split: option.splits if_splits)

lemma get_prop_tree_cases:
  assumes "is_tree (get_prop t k)" and "\<not> unsafe_key k"
  shows "(\<exists>kvs v. t = Obj kvs \<and> map_of kvs k = Some v \<and> get_prop t k = v) \<or>
         (\<exists>xs i. t = Arr xs \<and> array_index k = Some i \<and> i < length xs \<and> xs ! i \<noteq> Hole \<and>
                  get_prop t k = xs ! i)"
proof -
  from get_prop_tree [OF assms] have t: "is_tree t" and o: "own_prop t k = Some (get_prop t k)"
    by simp_all
  from own_prop_tree_cases [OF o assms(1) t] show ?thesis by metis
qed

lemma write_back_tree: "is_tree t \<Longrightarrow> is_tree new \<Longrightarrow> is_tree (write_back t ks new)"
  by (cases ks; cases t) (auto split: option.splits)

lemma write_back_read:
  "baseGet_loop t ks = Arr ys \<Longrightarrow> safe_keys ks \<Longrightarrow>
     baseGet_loop (write_back t ks (Arr zs)) ks = Arr zs"
proof (induction ks arbitrary: t)
  case Nil
  then show ?case by simp
next
  case (Cons k ks)
  from Cons.prems have t: "t \<noteq> Null" "t \<noteq> Undefined" and
    g: "baseGet_loop (get_prop t k) ks = Arr ys" and
    nk: "\<not> unsafe_key k" and sk: "safe_keys ks"
    by (auto split: if_splits)
  from baseGet_loop_tree [OF g sk] have gt: "is_tree (get_prop t k)" .
  from Cons.IH [OF g sk] have
    ih: "baseGet_loop (write_back (get_prop t k) ks (Arr zs)) ks = Arr zs" .
  have wt: "is_tree (write_back (get_prop t k) ks (Arr zs))"
    using gt by (simp add: write_back_tree)
  from get_prop_tree_cases [OF gt nk] show ?case
  proof (elim disjE exE conjE)
    fix kvs v
    assume a: "t = Obj kvs" "map_of kvs k = Some v" "get_prop t k = v"
    then have "get_prop (write_back t (k # ks) (Arr zs)) k = write_back v ks (Arr zs)"
      by (simp add: get_prop_def map_of_alist_put)
    with a ih show ?thesis by simp
  next
    fix xs i
    assume a: "t = Arr xs" "array_index k = Some i" "i < length xs" "xs ! i \<noteq> Hole"
      "get_prop t k = xs ! i"
    from wt a have "write_back (xs ! i) ks (Arr zs) \<noteq> Hole" by auto
    with a have "get_prop (write_back t (k # ks) (Arr zs)) k = write_back (xs ! i) ks (Arr zs)"
      by (simp add: get_prop_def)
    with a ih show ?thesis by simp
  qed
qed

lemma write_back_own:
  assumes "baseGet_loop t ks = Arr ys" and "ks \<noteq> []" and "safe_keys ks"
  shows "(own_prop (write_back t ks (Arr zs)) p \<noteq> None) = (own_prop t p \<noteq> None) \<and>
         prototype_chain (write_back t ks (Arr zs)) = prototype_chain t"
proof -
  from assms(2) obtain k ks' where ks: "ks = k # ks'" by (cases ks) auto
  with assms have g: "baseGet_loop (get_prop t k) ks' = Arr ys" and
    nk: "\<not> unsafe_key k" and sk: "safe_keys ks'"
    by (auto split: if_splits)
  from baseGet_loop_tree [OF g sk] have gt: "is_tree (get_prop t k)" .
  from get_prop_tree_cases [OF gt nk] show ?thesis
  proof (elim disjE exE conjE)
    fix kvs v
    assume a: "t = Obj kvs" "map_of kvs k = Some v" "get_prop t k = v"
    with ks show ?thesis by (auto simp: map_of_alist_put)
  next
    fix xs i
    assume a: "t = Arr xs" "array_index k = Some i" "i < length xs" "xs ! i \<noteq> Hole"
      "get_prop t k = xs ! i"
    from gt a have "is_tree (write_back (xs ! i) ks' (Arr zs))" by (simp add: write_back_tree)
    then have nh: "write_back (xs ! i) ks' (Arr zs) \<noteq> Hole" by auto
    show ?thesis
    proof (cases "array_index p")
      case None
      with a ks show ?thesis by simp
    next
      case (Some j)
      with a ks nh show ?thesis by (cases "j = i") auto
    qed
  qed
qed

lemma write_back_castPath:
  assumes "baseGet_loop t ks = Arr ys" and "ks \<noteq> []" and "safe_keys ks"
  shows "castPath p (write_back t ks (Arr zs)) = castPath p t"
proof -
  from baseGet_loop_tree [OF assms(1,3)] have t: "is_tree t" .
  then have "is_tree (write_back t ks (Arr zs))" by (simp add: write_back_tree)
  with t write_back_own [OF assms, of zs p] show ?thesis
    by (auto simp: castPath_def isKey_def has_property_def dest: is_tree_simps)
qed

lemma baseSet_loop_at_array:
  "baseGet_loop t ks = Arr xs \<Longrightarrow> baseSet_loop t (ks @ [k]) v = Inr t' \<Longrightarrow>
     safe_keys (ks @ [k]) \<Longrightarrow>
     \<exists>xs'. assignValue (Arr xs) k v = Inr (Arr xs') \<and> t' = write_back t ks (Arr xs')"
proof (induction ks arbitrary: t t')
  case Nil
  then show ?case by (auto simp: unsafe_key_def split: if_splits option.splits)
next
  case (Cons q ks)
  from Cons.prems have g: "baseGet_loop (get_prop t q) ks = Arr xs" and
    nq: "\<not> unsafe_key q" and sk: "safe_keys ks" and sk1: "safe_keys (ks @ [k])"
    by (auto split: if_splits)
  from baseGet_loop_tree [OF g sk] have gt: "is_tree (get_prop t q)" .
  then have io: "isObject (get_prop t q)" by (auto dest: is_tree_simps)
  from Cons.prems(2) have "baseSet_loop t (q # (ks @ [k])) v = Inr t'" by simp
  from baseSet_loop_step [OF this nq] io obtain child where
    c: "baseSet_loop (get_prop t q) (ks @ [k]) v = Inr child" and
    a: "assignValue t q child = Inr t'"
    by auto
  from Cons.IH [OF g c sk1] obtain xs' where
    x: "assignValue (Arr xs) k v = Inr (Arr xs')" and
    ch: "child = write_back (get_prop t q) ks (Arr xs')" by auto
  from get_prop_tree_cases [OF gt nq] have "t' = write_back t (q # ks) (Arr xs')"
  proof (elim disjE exE conjE)
    fix kvs w
    assume "t = Obj kvs" "map_of kvs q = Some w" "get_prop t q = w"
    with a ch show ?thesis by simp
  next
    fix ys i
    assume "t = Arr ys" "array_index q = Some i" "i < length ys" "ys ! i \<noteq> Hole"
      "get_prop t q = ys ! i"
    with a ch show ?thesis by simp
  qed
  with x show ?case by auto
qed

section \<open>arrayPush\<close>

text \<open>A list of two numbers with one \<^verbatim>\<open>forceUpdate\<close> callback registered for its path.\<close>

definition observed_list :: store where
  "observed_list =
     subscribeForceUpdate ''items'' 7 (FormProvider (Obj [(''items'', Arr [Num 1, Num 2])]))"

lemma lodash_get_array:
  assumes "lodash_get t p Undefined = Arr xs" and "safe_keys (castPath p t)"
  shows "castPath p t \<noteq> [] \<and> baseGet_loop t (castPath p t) = Arr xs \<and> is_tree t"
proof -
  from assms have "baseGet t (castPath p t) = Arr xs"
    by (auto simp: lodash_get_def Let_def split: if_splits)
  then have a: "castPath p t \<noteq> []" and b: "baseGet_loop t (castPath p t) = Arr xs"
    by (auto simp: baseGet_def split: if_splits)
  from baseGet_loop_tree [OF b assms(2)] a b show ?thesis by simp
qed

lemma lodash_get_write_back:
  assumes "lodash_get t p Undefined = Arr xs" and "safe_keys (castPath p t)"
  shows "lodash_get (write_back t (castPath p t) (Arr zs)) p Undefined = Arr zs"
proof -
  from lodash_get_array [OF assms] have
    a: "castPath p t \<noteq> []" and b: "baseGet_loop t (castPath p t) = Arr xs" and t: "is_tree t"
    by simp_all
  have "is_tree (write_back t (castPath p t) (Arr zs))" using t by (simp add: write_back_tree)
  then have n: "write_back t (castPath p t) (Arr zs) \<noteq> Null \<and>
                write_back t (castPath p t) (Arr zs) \<noteq> Undefined"
    by (auto dest: is_tree_simps)
  from write_back_castPath [OF b a assms(2)] write_back_read [OF b assms(2)] a n show ?thesis
    by (simp add: lodash_get_def baseGet_def)
qed

text \<open>
  C7, as the code has it: when the current value at \<open>path\<close> is an array of length \<open>n\<close>
  and \<open>v\<close> is truthy, \<^verbatim>\<open>arrayPush(path, v)\<close> is \<^verbatim>\<open>setFormValue\<close> at the path
  \<^verbatim>\<open>`${path}[${n}]`\<close> followed by the callbacks registered for \<open>path\<close>; it throws when
  that \<^verbatim>\<open>setFormValue\<close> throws, and no callback of \<open>path\<close> is called then. (The
  path is not the name of a property that objects inherit, such as \<^verbatim>\<open>toString\<close>:
  under such a name the container of callbacks holds a function and not a list.) When the
  call returns, \<open>n\<close> is below \<open>2^32 - 1\<close>, no key of \<open>path\<close> is \<^verbatim>\<open>__proto__\<close>,
  \<^verbatim>\<open>constructor\<close> or \<^verbatim>\<open>prototype\<close>, and lodash resolves the new path to the keys of
  \<open>path\<close> followed by the index \<open>n\<close>, then the array at \<open>path\<close> is the old one with
  \<open>v\<close> appended, validation has run for the new element (the new path is in the set of
  invalid paths exactly when the error tree holds a truthy value at it), and the callbacks
  called are the global ones, those of the new path and those of \<open>path\<close>. A falsy \<open>v\<close>
  (\<^verbatim>\<open>0\<close>, \<^verbatim>\<open>''\<close>, \<^verbatim>\<open>false\<close>, \<^verbatim>\<open>null\<close>, or no value) writes nothing; the callbacks of
  \<open>path\<close> are called all the same.
\<close>

theorem arrayPush_appends_truthy_value:
  assumes "lodash_get (formValue s) path Undefined = Arr xs"
    and "path \<notin> set object_prototype"
  shows "(truthy v \<longrightarrow>
            arrayPush pv path v s
              = map_sum id (force_path path)
                  (setFormValue pv (path @ ''['' @ show_nat (length xs) @ '']'') v s)) \<and>
         (truthy v \<and> arrayPush pv path v s = Inr s' \<and> length xs < 4294967295 \<and>
          list_all (\<lambda>k. \<not> unsafe_key k) (castPath path (formValue s)) \<and>
          castPath (path @ ''['' @ show_nat (length xs) @ '']'') (formValue s)
            = castPath path (formValue s) @ [show_nat (length xs)] \<longrightarrow>
            lodash_get (formValue s') path Undefined = Arr (xs @ [v]) \<and>
            (path @ ''['' @ show_nat (length xs) @ '']'' \<in> set (invalidPathSet s'))
              = truthy (lodash_get (formError s')
                          (path @ ''['' @ show_nat (length xs) @ '']'') Undefined) \<and>
            rendered s' = rendered s @ forceUpdates s
              @ at_path (forceUpdatesByPath s) (path @ ''['' @ show_nat (length xs) @ '']'')
              @ at_path (forceUpdatesByPath s) path) \<and>
         (\<not> truthy v \<longrightarrow> arrayPush pv path v s = Inr (force_path path s))"
proof (intro conjI impI)
  let ?new = "path @ ''['' @ show_nat (length xs) @ '']''"
  {
    assume "truthy v"
    then have "v \<noteq> Undefined" by auto
    then show "arrayPush pv path v s = map_sum id (force_path path) (setFormValue pv ?new v s)"
      using assms(1) \<open>truthy v\<close>
      by (cases "setFormValue pv ?new v s") (simp_all add: arrayPush_def Let_def)
  }
  {
    assume "\<not> truthy v"
    then have "\<not> truthy (if v = Undefined then Null else v)" by simp
    then show "arrayPush pv path v s = Inr (force_path path s)"
      by (simp add: arrayPush_def Let_def)
  }
  {
    assume h: "truthy v \<and> arrayPush pv path v s = Inr s' \<and> length xs < 4294967295 \<and>
               list_all (\<lambda>k. \<not> unsafe_key k) (castPath path (formValue s)) \<and>
               castPath ?new (formValue s) = castPath path (formValue s) @ [show_nat (length xs)]"
    then have tv: "truthy v" and nu: "v \<noteq> Undefined" and
      sk: "safe_keys (castPath path (formValue s))" by auto
    from h assms(1) nu obtain s1 where
      w: "setFormValue pv ?new v s = Inr s1" and s': "s' = force_path path s1"
      by (auto simp: arrayPush_def Let_def split: sum.splits)
    let ?t = "formValue s"
    from lodash_get_array [OF assms(1) sk] have
      b: "baseGet_loop ?t (castPath path ?t) = Arr xs" and t: "is_tree ?t" by simp_all
    from setFormValue_keeps [OF w] have
      k: "registrations s1 = registrations s" and
      ls: "lodash_set ?t ?new v = Inr (formValue s1)" and
      r: "rendered s1 = rendered s @ forceUpdates s @ at_path (forceUpdatesByPath s) ?new"
      by simp_all
    from ls t h have "baseSet_loop ?t (castPath path ?t @ [show_nat (length xs)]) v
                        = Inr (formValue s1)"
      by (auto simp: lodash_set_def dest: is_tree_simps)
    moreover from sk have "safe_keys (castPath path ?t @ [show_nat (length xs)])"
      by (simp add: show_nat_safe)
    ultimately obtain xs' where
      x: "assignValue (Arr xs) (show_nat (length xs)) v = Inr (Arr xs')" and
      f: "formValue s1 = write_back ?t (castPath path ?t) (Arr xs')"
      using baseSet_loop_at_array [OF b] by blast
    from x h have "xs' = xs @ [v]" by (simp add: array_index_show_nat)
    with f lodash_get_write_back [OF assms(1) sk, of "xs @ [v]"] s'
    show "lodash_get (formValue s') path Undefined = Arr (xs @ [v])"
      by (simp add: force_path_def force_def)
    from setFormValue_agrees [OF w] s'
    show "(?new \<in> set (invalidPathSet s'))
            = truthy (lodash_get (formError s') ?new Undefined)"
      by (simp add: force_path_def force_def)
    from k r s'
    show "rendered s' = rendered s @ forceUpdates s @ at_path (forceUpdatesByPath s) ?new
            @ at_path (forceUpdatesByPath s) path"
      by (simp add: force_path_def force_def registrations_def)
  }
qed

text \<open>Witness for C7: 5 is pushed to the list \<^verbatim>\<open>[1, 2]\<close>, and \<^verbatim>\<open>arrayPush\<close> is called
  without a value.\<close>

theorem arrayPush_appends_truthy_value_witness:
  "lodash_get (formValue observed_list) ''items'' Undefined = Arr [Num 1, Num 2] \<and>
   \<not> isl (arrayPush plain_form ''items'' (Num 5) observed_list) \<and>
   lodash_get (formValue (projr (arrayPush plain_form ''items'' (Num 5) observed_list)))
     ''items'' Undefined = Arr [Num 1, Num 2, Num 5] \<and>
   rendered (projr (arrayPush plain_form ''items'' (Num 5) observed_list)) = [7] \<and>
   arrayPush plain_form ''items'' Null observed_list = Inr (force_path ''items'' observed_list)"
  using arrayPush_appends_truthy_value [of observed_list "''items''" "[Num 1, Num 2]" "Num 5"
      plain_form "projr (arrayPush plain_form ''items'' (Num 5) observed_list)"]
    arrayPush_appends_truthy_value [of observed_list "''items''" "[Num 1, Num 2]" Null
      plain_form "projr (arrayPush plain_form ''items'' (Num 5) observed_list)"]
  by (simp add: observed_list_def unsafe_key_def path_defs lodash_defs store_defs
        example_defs)

text \<open>
  An example in which \<^verbatim>\<open>arrayPush\<close> throws: the empty list \<^verbatim>\<open>items\<close> has a validator
  of its own, and for the path \<^verbatim>\<open>items[0]\<close> the lookup of validators finds that
  function, which has no \<^verbatim>\<open>reduce\<close>.
\<close>

lemma arrayPush_throws_at_validator:
  "and_then (subscribe plain_form ''items'' (Fn 0) (FormProvider (Obj [(''items'', Arr [])])))
     (arrayPush plain_form ''items'' (Num 5)) = Inl TypeError"
  by (simp add: path_defs lodash_defs store_defs example_defs)

text \<open>
  Counterexample to C7 as stated: \<^verbatim>\<open>arrayPush('items', 0)\<close>, \<^verbatim>\<open>arrayPush('items', '')\<close>
  and \<^verbatim>\<open>arrayPush('items', false)\<close> leave the list \<^verbatim>\<open>[1, 2]\<close> as it is: the guard
  \<^verbatim>\<open>if (value)\<close> lets only truthy values through.
\<close>

theorem arrayPush_skips_falsy_value:
  "map_sum id (value_at ''items'') (arrayPush plain_form ''items'' (Num 0) observed_list)
     = Inr (Arr [Num 1, Num 2]) \<and>
   map_sum id (value_at ''items'') (arrayPush plain_form ''items'' (Str []) observed_list)
     = Inr (Arr [Num 1, Num 2]) \<and>
   map_sum id (value_at ''items'') (arrayPush plain_form ''items'' (Bool False) observed_list)
     = Inr (Arr [Num 1, Num 2])"
  by (simp add: observed_list_def path_defs lodash_defs store_defs example_defs)

section \<open>arrayRemove\<close>

text \<open>What \<^verbatim>\<open>pullAt\<close> leaves alone or shortens: anything but a non-empty string, a
  function or an object. \<open>shifted\<close> is the value afterwards.\<close>

definition shiftable :: "jsval \<Rightarrow> bool" where
  "shiftable u = (case u of Str s \<Rightarrow> s = [] | Fn f \<Rightarrow> False | Obj kvs \<Rightarrow> False | _ \<Rightarrow> True)"

fun shifted :: "int \<Rightarrow> jsval \<Rightarrow> jsval" where
  "shifted i (Arr ys) = Arr (take (nat i) ys @ drop (Suc (nat i)) ys)"
| "shifted i u = u"

lemma pullAt_shiftable:
  "shiftable u \<Longrightarrow> 0 \<le> i \<Longrightarrow> pullAt u i = Inr (shifted i u)"
  by (cases u) (auto simp: shiftable_def)

lemma pullAt_in_shiftable:
  assumes "shiftable (lodash_get t p Undefined)" and "0 \<le> i" and "safe_keys (castPath p t)"
  shows "\<exists>t'. pullAt_in t p i = Inr t' \<and>
              lodash_get t' p Undefined = shifted i (lodash_get t p Undefined)"
proof (cases "shifted i (lodash_get t p Undefined) = lodash_get t p Undefined")
  case True
  with pullAt_shiftable [OF assms(1,2)] show ?thesis by (simp add: pullAt_in_def Let_def)
next
  case False
  then obtain ys where a: "lodash_get t p Undefined = Arr ys"
    by (cases "lodash_get t p Undefined") auto
  let ?zs = "take (nat i) ys @ drop (Suc (nat i)) ys"
  from pullAt_shiftable [OF assms(1,2)] a False
  have "pullAt_in t p i = Inr (write_back t (castPath p t) (Arr ?zs))"
    by (simp add: pullAt_in_def Let_def)
  with lodash_get_write_back [OF a assms(3), of ?zs] a show ?thesis by simp
qed

text \<open>
  What \<^verbatim>\<open>arrayRemove\<close> does when nothing stands in its way: without an array in the
  tree of values it throws its error; with one, and with error, dirty and identifier trees
  that hold at the path an array, nothing or a falsy primitive, the element at the index
  is removed from every array found there, later elements move down by one, and the
  callbacks of the path are called. The path has none of the keys \<^verbatim>\<open>__proto__\<close>,
  \<^verbatim>\<open>constructor\<close> and \<^verbatim>\<open>prototype\<close>, under which a prototype would be read, and
  it is not the name of a property that objects inherit, under which the container of
  callbacks holds a function and not a list.
\<close>

lemma arrayRemove_not_array:
  "\<not> isArray (lodash_get (formValue s) path Undefined) \<Longrightarrow>
     arrayRemove path i s = Inl (Error ''You are not removing from an array: %s'')"
  by (simp add: arrayRemove_def Let_def)

lemma arrayRemove_shifts_four_trees:
  assumes "lodash_get (formValue s) path Undefined = Arr xs" and "0 \<le> i"
    and "shiftable (lodash_get (formError s) path Undefined)"
    and "shiftable (lodash_get (formDirty s) path Undefined)"
    and "shiftable (lodash_get (formUniqueIds s) path Undefined)"
    and "safe_keys (castPath path (formValue s))"
    and "safe_keys (castPath path (formError s))"
    and "safe_keys (castPath path (formDirty s))"
    and "safe_keys (castPath path (formUniqueIds s))"
    and "path \<notin> set object_prototype"
  shows "\<exists>s'. arrayRemove path i s = Inr s' \<and>
           lodash_get (formValue s') path Undefined
             = Arr (take (nat i) xs @ drop (Suc (nat i)) xs) \<and>
           lodash_get (formError s') path Undefined
             = shifted i (lodash_get (formError s) path Undefined) \<and>
           lodash_get (formDirty s') path Undefined
             = shifted i (lodash_get (formDirty s) path Undefined) \<and>
           lodash_get (formUniqueIds s') path Undefined
             = shifted i (lodash_get (formUniqueIds s) path Undefined) \<and>
           rendered s' = rendered s @ at_path (forceUpdatesByPath s) path"
proof -
  have "shiftable (lodash_get (formValue s) path Undefined)"
    using assms(1) by (simp add: shiftable_def)
  from pullAt_in_shiftable [OF this assms(2,6)] assms(1) obtain fv where
    fv: "pullAt_in (formValue s) path i = Inr fv"
        "lodash_get fv path Undefined = Arr (take (nat i) xs @ drop (Suc (nat i)) xs)"
    by auto
  from pullAt_in_shiftable [OF assms(3) assms(2,7)] obtain fe where
    fe: "pullAt_in (formError s) path i = Inr fe"
        "lodash_get fe path Undefined = shifted i (lodash_get (formError s) path Undefined)"
    by auto
  from pullAt_in_shiftable [OF assms(4) assms(2,8)] obtain fd where
    fd: "pullAt_in (formDirty s) path i = Inr fd"
        "lodash_get fd path Undefined = shifted i (lodash_get (formDirty s) path Undefined)"
    by auto
  from pullAt_in_shiftable [OF assms(5) assms(2,9)] obtain fu where
    fu: "pullAt_in (formUniqueIds s) path i = Inr fu"
        "lodash_get fu path Undefined
           = shifted i (lodash_get (formUniqueIds s) path Undefined)"
    by auto
  from assms(1) fv fe fd fu show ?thesis
    by (simp add: arrayRemove_def Let_def force_path_def force_def)
qed

text \<open>
  C6: the claim says that \<^verbatim>\<open>arrayRemove\<close> removes the element from all four trees
  whenever the current value at the path is an array. Here the list \<^verbatim>\<open>items\<close> has a
  validator of its own, so the error tree holds the message \<^verbatim>\<open>'too many'\<close> at
  \<^verbatim>\<open>items\<close>. \<^verbatim>\<open>arrayRemove('items', 0)\<close> checks only the tree of values for an array
  and hands the message to \<^verbatim>\<open>pullAt\<close>, whose \<^verbatim>\<open>splice\<close> throws a \<^verbatim>\<open>TypeError\<close> on a
  string: the dirty flags and identifiers are not shifted and no callback is called.
\<close>

theorem arrayRemove_throws_on_list_message:
  "map_sum id error_view
     (subscribe short_list_form ''items'' (Fn 0)
        (FormProvider (Obj [(''items'', Arr [Num 1, Num 2, Num 3])])))
   = Inr (Obj [(''items'', Str ''too many'')], [''items''], False) \<and>
   and_then
     (subscribe short_list_form ''items'' (Fn 0)
        (FormProvider (Obj [(''items'', Arr [Num 1, Num 2, Num 3])])))
     (arrayRemove ''items'' 0)
   = Inl TypeError"
  by (simp add: path_defs lodash_defs store_defs example_defs)

section \<open>reset\<close>







subsection \<open>The paths that keyify lists\<close>










subsection \<open>Canonical numerals\<close>





subsection \<open>Leaves of a tree\<close>
















subsection \<open>Trees with clean keys\<close>
















subsection \<open>The keys lodash uses for a listed path\<close>





subsection \<open>A write keeps what earlier writes stored\<close>









subsection \<open>What reset writes, and what it leaves\<close>
















text \<open>
  Witness for C4: the nested form \<^verbatim>\<open>{a: {b: 1, c: [2]}}\<close>. The field \<^verbatim>\<open>a.b\<close> is
  changed, a second element is added to the list and a field \<^verbatim>\<open>d\<close> is added; after
  \<^verbatim>\<open>reset\<close> the listed paths \<^verbatim>\<open>a.b\<close> and \<^verbatim>\<open>a.c.0\<close> hold the original values,
  and the second element and the field \<^verbatim>\<open>d\<close> are still there.
\<close>

definition nested_form :: jsval where
  "nested_form = Obj [(''a'', Obj [(''b'', Num 1), (''c'', Arr [Num 2])])]"



text \<open>
  An example in which the dirty tree has been written: after
  \<^verbatim>\<open>setFormDirty('a.b', true)\<close> on the nested form, \<^verbatim>\<open>reset\<close> sets the flag at
  \<^verbatim>\<open>a.b\<close> to \<^verbatim>\<open>false\<close>.
\<close>

lemma reset_clears_dirty_flag:
  "map_sum id (\<lambda>s. getFormDirty s ''a.b'')
     (setFormDirty ''a.b'' (Bool True) (FormProvider nested_form)) = Inr (Bool True) \<and>
   map_sum id (\<lambda>s. getFormDirty s ''a.b'')
     (and_then (setFormDirty ''a.b'' (Bool True) (FormProvider nested_form))
        (reset plain_form)) = Inr (Bool False)"
  by (simp add: nested_form_def path_defs lodash_defs store_defs example_defs)

text \<open>
  Examples beside the theorem. Under the key \<^verbatim>\<open>toString\<close> the read of the empty dirty
  tree finds the function that every object inherits, which is truthy. On the form
  \<^verbatim>\<open>{a: 1}\<close>, \<^verbatim>\<open>setFormValue('a.b', 2)\<close> and \<^verbatim>\<open>reset\<close> leave \<^verbatim>\<open>{a: 1}\<close>: the
  object that was written at \<^verbatim>\<open>a\<close> is replaced by the leaf. On the form
  \<^verbatim>\<open>{'': 1}\<close> the listed path is the empty string, at which \<^verbatim>\<open>getFormValues\<close>
  reads the whole tree, and that has a new field after \<^verbatim>\<open>reset\<close>.
\<close>

lemma reset_at_other_keys:
  "getFormDirty (FormProvider (Obj [(''toString'', Num 1)])) ''toString''
     = built_in ''Object'' ''toString'' \<and>
   map_sum id formValue
     (and_then (setFormValue plain_form ''a.b'' (Num 2) (FormProvider (Obj [(''a'', Num 1)])))
        (reset plain_form))
     = Inr (Obj [(''a'', Num 1)]) \<and>
   map_sum id (value_at [])
     (and_then (setFormValue plain_form ''b'' (Num 2) (FormProvider (Obj [([], Num 1)])))
        (reset plain_form))
     = Inr (Obj [([], Num 1), (''b'', Num 2)])"
  by (simp add: built_in_def path_defs lodash_defs store_defs example_defs)


end
